theory Spec2Isabelle
  imports Main "HOL-Library.Word"
begin

section \<open>Data model of the version set (kv/version)\<close>

text \<open>
  The counters of the store (\<open>atomic.Int64\<close>) and the file numbers are 64-bit machine
  integers: addition wraps, and \<open>sint\<close> reads the signed value Go compares.
\<close>

type_synonym int64 = "64 word"

record FileMeta =
  fileNumber :: int64
  minKey :: nat
  maxKey :: nat
  fileSize :: nat

text \<open>A version: a vector of levels, each the file list of that level.\<close>

record Version =
  levels :: "FileMeta list list"

text \<open>
  The three kinds of edit. The constructors carry the names of the Go constructor
  functions the source calls (\<open>CreateNewFile\<close>, \<open>NewNextFileNumber\<close>).
\<close>

datatype Log =
    CreateNewFile nat FileMeta
  | DeleteFile nat int64
  | NewNextFileNumber int64

record EditLog =
  familyID :: int
  logs :: "Log list"

text \<open>
  A family version: its id, its name, the head version and the older versions of the
  chain (newest first). The head is a field of its own, so that reading it never fails.
\<close>

record FamilyVersion =
  fvID :: int
  fvName :: string
  fvCurrent :: Version
  fvOlder :: "Version list"

text \<open>
  The struct \<open>storeVersionSet\<close>. The table cache, the logger and the mutex hold no data
  that the functions below read, and are left out. The manifest writer is \<open>None\<close> for Go's
  nil interface, and otherwise the path of the journal file the writer appends to.
\<close>

record storeVersionSet =
  manifestFileNumber :: int64
  nextFileNumber :: int64
  storePath :: string
  familyVersions :: "string \<rightharpoonup> FamilyVersion"
  familyIDs :: "int \<rightharpoonup> string"
  versionID :: int64
  numOfLevels :: nat
  manifest :: "string option"

datatype error =
    ErrUnknownFamilyName string
  | ErrUnknownFamilyID int
  | ErrEncode
  | ErrWrite
  | ErrSync
  | ErrReadCurrent
  | ErrCreateReader
  | ErrReadRecord
  | ErrUnmarshal
  | ErrOpenWriter
  | ErrWriteTmp
  | ErrRename
  | PanicNilWriter
  | PanicNilFamilyVersion

section \<open>Collaborators outside the version set\<close>

text \<open>
  The encoding of edit logs and the naming of manifest files are defined in files of the
  package that are not part of the sources at hand. They are parameters of the model:
  every theorem below holds for every choice of them. The payload type \<open>'p\<close> is what a
  marshalled edit log is (bytes, in the program).
\<close>

record 'p outside =
  marshal :: "EditLog \<Rightarrow> 'p option"
  unmarshal :: "'p \<Rightarrow> EditLog option"
  ManifestFileName :: "int64 \<Rightarrow> string"

text \<open>
  Modelled from the spec: the file system and the framed journal reader and writer
  (packages bufioutil, fileutil, ioutil and os are not among the sources). A store
  directory holds plain files (CURRENT and its temporary file) and journals (manifests),
  a journal being a sequence of frames; a frame that fails its length or checksum test
  is \<open>Bad\<close>. Every successful mutating call is appended to \<open>trace\<close>. Whether the next
  mutating call fails is read from \<open>script\<close> (\<open>True\<close>: it fails and changes nothing);
  an empty script means success.
\<close>

datatype 'p frame = Good 'p | Bad

datatype 'p event =
    EvOpenWriter string
  | EvWrite string 'p
  | EvSync string
  | EvWriteFile string string
  | EvRename string string

record 'p world =
  texts :: "string \<rightharpoonup> string"
  journals :: "string \<rightharpoonup> 'p frame list"
  trace :: "'p event list"
  script :: "bool list"

definition next_fault :: "'p world \<Rightarrow> bool \<times> 'p world" where
  "next_fault w = (case script w of [] \<Rightarrow> (False, w) | b # bs \<Rightarrow> (b, w\<lparr>script := bs\<rparr>))"

definition Exist :: "string \<Rightarrow> 'p world \<Rightarrow> bool" where
  "Exist path w = (texts w path \<noteq> None \<or> journals w path \<noteq> None)"

definition ReadFile :: "string \<Rightarrow> 'p world \<Rightarrow> string option" where
  "ReadFile path w = texts w path"

definition WriteFile :: "string \<Rightarrow> string \<Rightarrow> 'p world \<Rightarrow> 'p world \<times> bool" where
  "WriteFile path content w =
     (case next_fault w of
        (True, w1) \<Rightarrow> (w1, False)
      | (False, w1) \<Rightarrow>
          (w1\<lparr>texts := (texts w1)(path \<mapsto> content),
              trace := trace w1 @ [EvWriteFile path content]\<rparr>, True))"

definition Rename :: "string \<Rightarrow> string \<Rightarrow> 'p world \<Rightarrow> 'p world \<times> bool" where
  "Rename old new w =
     (case next_fault w of
        (True, w1) \<Rightarrow> (w1, False)
      | (False, w1) \<Rightarrow>
          (case texts w1 old of
             None \<Rightarrow> (w1, False)
           | Some content \<Rightarrow>
               (w1\<lparr>texts := ((texts w1)(old := None))(new \<mapsto> content),
                   trace := trace w1 @ [EvRename old new]\<rparr>, True)))"

definition frames_of :: "'p world \<Rightarrow> string \<Rightarrow> 'p frame list" where
  "frames_of w path = (case journals w path of None \<Rightarrow> [] | Some fs \<Rightarrow> fs)"

definition NewBufioWriter :: "string \<Rightarrow> 'p world \<Rightarrow> 'p world \<times> string option" where
  "NewBufioWriter path w =
     (case next_fault w of
        (True, w1) \<Rightarrow> (w1, None)
      | (False, w1) \<Rightarrow>
          (w1\<lparr>journals := (journals w1)(path \<mapsto> frames_of w1 path),
              trace := trace w1 @ [EvOpenWriter path]\<rparr>, Some path))"

definition writerWrite :: "string \<Rightarrow> 'p \<Rightarrow> 'p world \<Rightarrow> 'p world \<times> bool" where
  "writerWrite path v w =
     (case next_fault w of
        (True, w1) \<Rightarrow> (w1, False)
      | (False, w1) \<Rightarrow>
          (w1\<lparr>journals := (journals w1)(path \<mapsto> frames_of w1 path @ [Good v]),
              trace := trace w1 @ [EvWrite path v]\<rparr>, True))"

definition writerSync :: "string \<Rightarrow> 'p world \<Rightarrow> 'p world \<times> bool" where
  "writerSync path w =
     (case next_fault w of
        (True, w1) \<Rightarrow> (w1, False)
      | (False, w1) \<Rightarrow> (w1\<lparr>trace := trace w1 @ [EvSync path]\<rparr>, True))"

definition NewBufioReader :: "string \<Rightarrow> 'p world \<Rightarrow> 'p frame list option" where
  "NewBufioReader path w = journals w path"

text \<open>
  Modelled from the spec: the constants of the package that are not among the sources.
  \<open>StoreFamilyID\<close> is the reserved family id of store-level edit logs, CURRENT the name
  of the pointer file, TMP the suffix of its temporary file.
\<close>

definition StoreFamilyID :: int where
  "StoreFamilyID = - 1"

definition current :: string where
  "current = ''CURRENT''"

definition TmpSuffix :: string where
  "TmpSuffix = ''TMP''"

definition joinPath :: "string \<Rightarrow> string \<Rightarrow> string" where
  "joinPath dir name = dir @ ''/'' @ name"

text \<open>
  Modelled from the spec: the edit log and the versions (edit_log.go, version.go and
  family_version.go are not among the sources). \<open>Add\<close> appends an edit. Edits are
  applied to a version in insertion order: a new file is inserted into its level,
  preserving the order of the level (by file number at level 0, by smallest key above);
  a deleted file is removed by its number, and a missing one is a no-op; the next file
  number is not an edit of a version. A level outside the version changes nothing.
  \<open>apply_edits\<close> is the method \<open>apply\<close> of the edit log. A family version starts
  with one version of empty levels; a clone of a version has its levels; \<open>appendVersion\<close>
  makes a version the head and keeps the previous head in the chain.
\<close>

definition NewEditLog :: "int \<Rightarrow> EditLog" where
  "NewEditLog fid = \<lparr>familyID = fid, logs = []\<rparr>"

definition Add :: "EditLog \<Rightarrow> Log \<Rightarrow> EditLog" where
  "Add el l = el\<lparr>logs := logs el @ [l]\<rparr>"

definition sortKey :: "nat \<Rightarrow> FileMeta \<Rightarrow> int" where
  "sortKey level f = (if level = 0 then sint (fileNumber f) else int (minKey f))"

definition addFile :: "nat \<Rightarrow> FileMeta \<Rightarrow> Version \<Rightarrow> Version" where
  "addFile level f v =
     (if level < length (levels v)
      then v\<lparr>levels := (levels v)[level := insort_key (sortKey level) f (levels v ! level)]\<rparr>
      else v)"

definition deleteFile :: "nat \<Rightarrow> int64 \<Rightarrow> Version \<Rightarrow> Version" where
  "deleteFile level num v =
     (if level < length (levels v)
      then v\<lparr>levels := (levels v)[level := filter (\<lambda>f. fileNumber f \<noteq> num) (levels v ! level)]\<rparr>
      else v)"

fun applyLog :: "Log \<Rightarrow> Version \<Rightarrow> Version" where
  "applyLog (CreateNewFile level f) v = addFile level f v"
| "applyLog (DeleteFile level num) v = deleteFile level num v"
| "applyLog (NewNextFileNumber n) v = v"

definition apply_edits :: "EditLog \<Rightarrow> Version \<Rightarrow> Version" where
  "apply_edits el v = foldl (\<lambda>v l. applyLog l v) v (logs el)"

definition cloneVersion :: "Version \<Rightarrow> Version" where
  "cloneVersion v = \<lparr>levels = levels v\<rparr>"

definition newFamilyVersion :: "int \<Rightarrow> string \<Rightarrow> storeVersionSet \<Rightarrow> FamilyVersion" where
  "newFamilyVersion fid family vs =
     \<lparr>fvID = fid, fvName = family,
      fvCurrent = \<lparr>levels = replicate (numOfLevels vs) []\<rparr>, fvOlder = []\<rparr>"

text \<open>
  Modelled from the spec: a snapshot pins the head version of a family until it is closed.
  The pin count is read by the collection of old versions only, which is not part of the
  model; a snapshot is the version it pins, and closing it changes nothing.
\<close>

definition GetSnapshot :: "FamilyVersion \<Rightarrow> Version" where
  "GetSnapshot fv = fvCurrent fv"

definition GetCurrent :: "Version \<Rightarrow> Version" where
  "GetCurrent snapshot = snapshot"

definition appendVersion :: "Version \<Rightarrow> FamilyVersion \<Rightarrow> FamilyVersion" where
  "appendVersion v fv = fv\<lparr>fvCurrent := v, fvOlder := fvCurrent fv # fvOlder fv\<rparr>"

section \<open>The version set (version_set.go)\<close>

definition NewStoreVersionSet :: "string \<Rightarrow> nat \<Rightarrow> storeVersionSet" where
  "NewStoreVersionSet path n =
     \<lparr>manifestFileNumber = 1, nextFileNumber = 2, storePath = path,
      familyVersions = Map.empty, familyIDs = Map.empty, versionID = 0,
      numOfLevels = n, manifest = None\<rparr>"

text \<open>\<open>nextFileNumber.Add(1)\<close> returns the new value; the function returns it less one.\<close>

definition NextFileNumber :: "storeVersionSet \<Rightarrow> int64 \<times> storeVersionSet" where
  "NextFileNumber vs =
     (let nextNumber = nextFileNumber vs + 1
      in (nextNumber - 1, vs\<lparr>nextFileNumber := nextNumber\<rparr>))"

definition ManifestFileNumber :: "storeVersionSet \<Rightarrow> int64" where
  "ManifestFileNumber vs = manifestFileNumber vs"

definition GetFamilyVersion :: "storeVersionSet \<Rightarrow> string \<Rightarrow> FamilyVersion option" where
  "GetFamilyVersion vs family = familyVersions vs family"

definition CreateFamilyVersion ::
  "string \<Rightarrow> int \<Rightarrow> storeVersionSet \<Rightarrow> FamilyVersion \<times> storeVersionSet" where
  "CreateFamilyVersion family fid vs =
     (case GetFamilyVersion vs family of
        Some familyVersion \<Rightarrow> (familyVersion, vs)
      | None \<Rightarrow>
          (let familyVersion = newFamilyVersion fid family vs
           in (familyVersion,
               vs\<lparr>familyVersions := (familyVersions vs)(family \<mapsto> familyVersion),
                  familyIDs := (familyIDs vs)(fid \<mapsto> family)\<rparr>)))"

definition getFamilyVersion :: "storeVersionSet \<Rightarrow> int \<Rightarrow> FamilyVersion option" where
  "getFamilyVersion vs fid =
     (case familyIDs vs fid of
        None \<Rightarrow> None
      | Some familyName \<Rightarrow> familyVersions vs familyName)"

definition setNextFileNumberWithoutLock :: "int64 \<Rightarrow> storeVersionSet \<Rightarrow> storeVersionSet" where
  "setNextFileNumberWithoutLock newNextFileNumber vs =
     vs\<lparr>manifestFileNumber := newNextFileNumber, nextFileNumber := newNextFileNumber + 1\<rparr>"

text \<open>
  Modelled from the spec: an edit log applied to the version set (edit_log.go is not among
  the sources). Its next-file-number edits call \<open>setNextFileNumberWithoutLock\<close>, in
  insertion order; its other edits are not edits of the version set.
\<close>

fun applyLogVersionSet :: "Log \<Rightarrow> storeVersionSet \<Rightarrow> storeVersionSet" where
  "applyLogVersionSet (NewNextFileNumber n) vs = setNextFileNumberWithoutLock n vs"
| "applyLogVersionSet (CreateNewFile level f) vs = vs"
| "applyLogVersionSet (DeleteFile level num) vs = vs"

definition applyVersionSet :: "EditLog \<Rightarrow> storeVersionSet \<Rightarrow> storeVersionSet" where
  "applyVersionSet el vs = foldl (\<lambda>vs l. applyLogVersionSet l vs) vs (logs el)"

definition getCurrentPath :: "storeVersionSet \<Rightarrow> string" where
  "getCurrentPath vs = joinPath (storePath vs) current"

definition getManifestFilePath :: "storeVersionSet \<Rightarrow> string \<Rightarrow> string" where
  "getManifestFilePath vs manifestFileName = joinPath (storePath vs) manifestFileName"

text \<open>
  \<open>persistEditLogs\<close>: for each edit log, marshal, write, sync, and return at the first
  failure. A call on the nil writer panics, after the marshalling.
\<close>

fun persistEditLogs ::
  "'p outside \<Rightarrow> string option \<Rightarrow> EditLog list \<Rightarrow> 'p world \<Rightarrow> 'p world \<times> error option" where
  "persistEditLogs d writer [] w = (w, None)"
| "persistEditLogs d writer (editLog # editLogs) w =
     (case marshal d editLog of
        None \<Rightarrow> (w, Some ErrEncode)
      | Some v \<Rightarrow>
          (case writer of
             None \<Rightarrow> (w, Some PanicNilWriter)
           | Some path \<Rightarrow>
               (case writerWrite path v w of
                  (w1, False) \<Rightarrow> (w1, Some ErrWrite)
                | (w1, True) \<Rightarrow>
                    (case writerSync path w1 of
                       (w2, False) \<Rightarrow> (w2, Some ErrSync)
                     | (w2, True) \<Rightarrow> persistEditLogs d writer editLogs w2))))"

text \<open>
  \<open>CommitFamilyEditLog\<close> changes the edit log it is given, the family version found under
  the name, and the journal; the function returns all three with the error.
\<close>

definition CommitFamilyEditLog ::
  "'p outside \<Rightarrow> string \<Rightarrow> EditLog \<Rightarrow> storeVersionSet \<Rightarrow> 'p world
     \<Rightarrow> EditLog \<times> storeVersionSet \<times> 'p world \<times> error option" where
  "CommitFamilyEditLog d family editLog vs w =
     (case GetFamilyVersion vs family of
        None \<Rightarrow> (editLog, vs, w, Some (ErrUnknownFamilyName family))
      | Some familyVersion \<Rightarrow>
          (let editLog1 = Add editLog (NewNextFileNumber (nextFileNumber vs))
           in case persistEditLogs d (manifest vs) [editLog1] w of
                (w1, Some err) \<Rightarrow> (editLog1, vs, w1, Some err)
              | (w1, None) \<Rightarrow>
                  (let snapshot = GetSnapshot familyVersion;
                       newVersion = cloneVersion (GetCurrent snapshot);
                       newVersion1 = apply_edits editLog1 newVersion;
                       familyVersion1 = appendVersion newVersion1 familyVersion
                   in (editLog1,
                       vs\<lparr>familyVersions := (familyVersions vs)(family \<mapsto> familyVersion1)\<rparr>,
                       w1, None))))"

text \<open>
  Go changes a family version through the pointer the map holds. In the model the
  changed family version is written back under the name the id leads to.
\<close>

definition in_place ::
  "int \<Rightarrow> (FamilyVersion \<Rightarrow> FamilyVersion) \<Rightarrow> storeVersionSet \<Rightarrow> storeVersionSet" where
  "in_place fid f vs =
     (case familyIDs vs fid of
        None \<Rightarrow> vs
      | Some familyName \<Rightarrow>
          vs\<lparr>familyVersions := (familyVersions vs)
               (familyName := map_option f (familyVersions vs familyName))\<rparr>)"

text \<open>\<open>applyFamilyVersion\<close> applies the edit log to the head version itself.\<close>

definition applyFamilyVersion ::
  "int \<Rightarrow> EditLog \<Rightarrow> storeVersionSet \<Rightarrow> storeVersionSet \<times> error option" where
  "applyFamilyVersion fid editLog vs =
     (case getFamilyVersion vs fid of
        None \<Rightarrow> (vs, Some (ErrUnknownFamilyID fid))
      | Some familyVersion \<Rightarrow>
          (let snapshot = GetSnapshot familyVersion
           in (in_place fid (\<lambda>fv. fv\<lparr>fvCurrent := apply_edits editLog (GetCurrent snapshot)\<rparr>) vs,
               None)))"

definition readManifestFileName :: "storeVersionSet \<Rightarrow> 'p world \<Rightarrow> error + string" where
  "readManifestFileName vs w =
     (case ReadFile (getCurrentPath vs) w of
        None \<Rightarrow> Inl ErrReadCurrent
      | Some v \<Rightarrow> Inr v)"

text \<open>
  The loop of \<open>recover\<close> over the frames the reader yields. The edit logs applied
  before a failing record stay applied: the function returns the state with the error.
\<close>

fun recover_loop ::
  "'p outside \<Rightarrow> 'p frame list \<Rightarrow> storeVersionSet \<Rightarrow> storeVersionSet \<times> error option" where
  "recover_loop d [] vs = (vs, None)"
| "recover_loop d (fr # frs) vs =
     (case fr of
        Bad \<Rightarrow> (vs, Some ErrReadRecord)
      | Good record \<Rightarrow>
          (case unmarshal d record of
             None \<Rightarrow> (vs, Some ErrUnmarshal)
           | Some editLog \<Rightarrow>
               (if familyID editLog = StoreFamilyID
                then recover_loop d frs (applyVersionSet editLog vs)
                else (case applyFamilyVersion (familyID editLog) editLog vs of
                        (vs1, Some err) \<Rightarrow> (vs1, Some err)
                      | (vs1, None) \<Rightarrow> recover_loop d frs vs1))))"

text \<open>
  \<open>recover\<close> reads only. When the reader cannot be created the source returns an
  error after its deferred close of that reader, which is outside the model.
\<close>

definition recover ::
  "'p outside \<Rightarrow> storeVersionSet \<Rightarrow> 'p world \<Rightarrow> storeVersionSet \<times> error option" where
  "recover d vs w =
     (case readManifestFileName vs w of
        Inl err \<Rightarrow> (vs, Some err)
      | Inr manifestFileName \<Rightarrow>
          (case NewBufioReader (getManifestFilePath vs manifestFileName) w of
             None \<Rightarrow> (vs, Some ErrCreateReader)
           | Some frames \<Rightarrow> recover_loop d frames vs))"

definition setCurrent ::
  "storeVersionSet \<Rightarrow> string \<Rightarrow> 'p world \<Rightarrow> 'p world \<times> error option" where
  "setCurrent vs manifestFile w =
     (let cur = getCurrentPath vs;
          tmp = cur @ ''.'' @ TmpSuffix
      in case WriteFile tmp manifestFile w of
           (w1, False) \<Rightarrow> (w1, Some ErrWriteTmp)
         | (w1, True) \<Rightarrow>
             (case Rename tmp cur w1 of
                (w2, False) \<Rightarrow> (w2, Some ErrRename)
              | (w2, True) \<Rightarrow> (w2, None)))"

text \<open>
  \<open>createFamilySnapshot\<close>: the two nested loops over the levels of the head version and
  over the files of each level, adding one new-file edit per file.
\<close>

definition createFamilySnapshot :: "int \<Rightarrow> FamilyVersion \<Rightarrow> EditLog" where
  "createFamilySnapshot fid familyVersion =
     (let snapshot = GetSnapshot familyVersion
      in foldl (\<lambda>editLog (numOfLevel, files).
                  foldl (\<lambda>editLog file. Add editLog (CreateNewFile numOfLevel file)) editLog files)
           (NewEditLog fid)
           (enumerate 0 (levels (GetCurrent snapshot))))"

definition createStoreSnapshot :: "storeVersionSet \<Rightarrow> EditLog" where
  "createStoreSnapshot vs = Add (NewEditLog StoreFamilyID) (NewNextFileNumber (nextFileNumber vs))"

text \<open>
  \<open>createSnapshot\<close> ranges over the map \<open>familyIDs\<close>, in an order Go does not fix. The
  order is the list \<open>ids\<close>, an enumeration of the keys of the map; an id that is not a
  key is not visited. A name without a family version would be a call on nil.
\<close>

fun familySnapshots :: "int list \<Rightarrow> storeVersionSet \<Rightarrow> EditLog list option" where
  "familySnapshots [] vs = Some []"
| "familySnapshots (fid # ids) vs =
     (case familyIDs vs fid of
        None \<Rightarrow> familySnapshots ids vs
      | Some name \<Rightarrow>
          (case familyVersions vs name of
             None \<Rightarrow> None
           | Some familyVersion \<Rightarrow>
               (case familySnapshots ids vs of
                  None \<Rightarrow> None
                | Some editLogs \<Rightarrow> Some (createFamilySnapshot fid familyVersion # editLogs))))"

definition createSnapshot :: "int list \<Rightarrow> storeVersionSet \<Rightarrow> EditLog list option" where
  "createSnapshot ids vs =
     (case familySnapshots ids vs of
        None \<Rightarrow> None
      | Some editLogs \<Rightarrow> Some (editLogs @ [createStoreSnapshot vs]))"

definition initJournal ::
  "'p outside \<Rightarrow> int list \<Rightarrow> storeVersionSet \<Rightarrow> 'p world
     \<Rightarrow> storeVersionSet \<times> 'p world \<times> error option" where
  "initJournal d ids vs w =
     (case manifest vs of
        Some open_writer \<Rightarrow> (vs, w, None)
      | None \<Rightarrow>
          (let manifestFileName = ManifestFileName d (manifestFileNumber vs);
               manifestPath = getManifestFilePath vs manifestFileName
           in case NewBufioWriter manifestPath w of
                (w1, None) \<Rightarrow> (vs, w1, Some ErrOpenWriter)
              | (w1, Some writer) \<Rightarrow>
                  (case createSnapshot ids vs of
                     None \<Rightarrow> (vs, w1, Some PanicNilFamilyVersion)
                   | Some editLogs \<Rightarrow>
                       (case persistEditLogs d (Some writer) editLogs w1 of
                          (w2, Some err) \<Rightarrow> (vs, w2, Some err)
                        | (w2, None) \<Rightarrow>
                            (case setCurrent vs manifestFileName w2 of
                               (w3, Some err) \<Rightarrow> (vs, w3, Some err)
                             | (w3, None) \<Rightarrow> (vs\<lparr>manifest := Some writer\<rparr>, w3, None))))))"

definition Recover ::
  "'p outside \<Rightarrow> int list \<Rightarrow> storeVersionSet \<Rightarrow> 'p world
     \<Rightarrow> storeVersionSet \<times> 'p world \<times> error option" where
  "Recover d ids vs w =
     (if \<not> Exist (joinPath (storePath vs) current) w
      then initJournal d ids vs w
      else (case recover d vs w of
              (vs1, Some err) \<Rightarrow> (vs1, w, Some err)
            | (vs1, None) \<Rightarrow> initJournal d ids vs1 w))"

text \<open>The calls of \<open>NextFileNumber\<close> one after the other, with the values they return.\<close>

fun NextFileNumber_calls :: "nat \<Rightarrow> storeVersionSet \<Rightarrow> int64 list \<times> storeVersionSet" where
  "NextFileNumber_calls 0 vs = ([], vs)"
| "NextFileNumber_calls (Suc k) vs =
     (case NextFileNumber vs of
        (n, vs1) \<Rightarrow> (case NextFileNumber_calls k vs1 of (ns, vs2) \<Rightarrow> (n # ns, vs2)))"


section \<open>Replay, in the words of the specification\<close>

text \<open>
  The specification describes the state after recovery as the replay of every persisted
  edit log, in order: a record of the reserved store family applies to the version set,
  any other record to the head version of the family version with that family id. This is
  that description, written without the reader, the decoding and the errors of the code;
  \<open>Recover\<close> is compared with it below.
\<close>

definition spec_dispatch :: "EditLog \<Rightarrow> storeVersionSet \<Rightarrow> storeVersionSet" where
  "spec_dispatch el vs =
     (if familyID el = StoreFamilyID then applyVersionSet el vs
      else in_place (familyID el) (\<lambda>fv. fv\<lparr>fvCurrent := apply_edits el (fvCurrent fv)\<rparr>) vs)"

definition spec_replay :: "EditLog list \<Rightarrow> storeVersionSet \<Rightarrow> storeVersionSet" where
  "spec_replay els vs = foldl (\<lambda>vs el. spec_dispatch el vs) vs els"

section \<open>The memory database (memdb)\<close>

text \<open>
  Modelled from the spec: the metric store and the write path of the memory database
  (the package memdb is among the sources with its tests only). A metric store holds the
  mutable map from tag-set to time-series store, the frozen maps, oldest first, and its
  limit on tag-sets; the version ids and the family times of the maps are not modelled.
  The tag count is the number of time-series stores summed over the mutable and the
  frozen maps. The shards partition one map from metric hash to metric store by the low
  bits of the key, so the database is that map, with the limit given to new metric
  stores. The hash, the empty time-series store and the merge of the fields of a point
  into a time-series store are parameters.

  The spec tests the limit where a time-series store is created; \<open>Test_Write\<close> expects
  a write to a full metric to fail for a tag-set that exists already, so the write path
  of the program tests the limit before it resolves the time-series store as well. The
  parameter \<open>rejectWhenFull\<close> says whether it does; the theorems hold for both.
\<close>

datatype mem_error = ErrEmptyFields | ErrTooManyTags

record 'f Point =
  pointName :: string
  pointTags :: string
  pointTimestamp :: int
  pointFields :: "(string \<times> 'f) list"

record 'ts metricStore =
  mutable :: "(string \<times> 'ts) list"
  immutable :: "(string \<times> 'ts) list list"
  maxTagsLimit :: nat

record 'ts memoryDatabase =
  mStores :: "32 word \<rightharpoonup> 'ts metricStore"
  maxTagsPerMetric :: nat

record ('f, 'ts) memdb_outside =
  Fnv32a :: "string \<Rightarrow> 32 word"
  newTSStore :: "'ts"
  mergeFields :: "'f Point \<Rightarrow> 'ts \<Rightarrow> 'ts"
  rejectWhenFull :: bool

definition newMemoryDatabase :: "nat \<Rightarrow> 'ts memoryDatabase" where
  "newMemoryDatabase limit = \<lparr>mStores = Map.empty, maxTagsPerMetric = limit\<rparr>"

definition newMetricStore :: "nat \<Rightarrow> 'ts metricStore" where
  "newMetricStore limit = \<lparr>mutable = [], immutable = [], maxTagsLimit = limit\<rparr>"

definition tagCount :: "'ts metricStore \<Rightarrow> nat" where
  "tagCount ms = length (mutable ms) + sum_list (map length (immutable ms))"

definition isFull :: "'ts metricStore \<Rightarrow> bool" where
  "isFull ms = (maxTagsLimit ms \<le> tagCount ms)"

definition getOrCreateTSStore ::
  "('f, 'ts) memdb_outside \<Rightarrow> string \<Rightarrow> 'ts metricStore \<Rightarrow> mem_error + 'ts \<times> 'ts metricStore" where
  "getOrCreateTSStore out tagSet ms =
     (case map_of (mutable ms) tagSet of
        Some ts \<Rightarrow> Inr (ts, ms)
      | None \<Rightarrow>
          (if maxTagsLimit ms \<le> tagCount ms then Inl ErrTooManyTags
           else Inr (newTSStore out, ms\<lparr>mutable := mutable ms @ [(tagSet, newTSStore out)]\<rparr>)))"

definition getOrCreateMStore ::
  "('f, 'ts) memdb_outside \<Rightarrow> string \<Rightarrow> 'ts memoryDatabase
     \<Rightarrow> 'ts metricStore \<times> 'ts memoryDatabase" where
  "getOrCreateMStore out metric db =
     (case mStores db (Fnv32a out metric) of
        Some ms \<Rightarrow> (ms, db)
      | None \<Rightarrow>
          (newMetricStore (maxTagsPerMetric db),
           db\<lparr>mStores := (mStores db)(Fnv32a out metric \<mapsto> newMetricStore (maxTagsPerMetric db))\<rparr>))"

definition writeTSStore ::
  "('f, 'ts) memdb_outside \<Rightarrow> 'f Point \<Rightarrow> 'ts metricStore \<Rightarrow> 'ts metricStore" where
  "writeTSStore out point ms =
     ms\<lparr>mutable := map (\<lambda>(tagSet, ts).
                          if tagSet = pointTags point then (tagSet, mergeFields out point ts)
                          else (tagSet, ts))
                     (mutable ms)\<rparr>"

definition Write ::
  "('f, 'ts) memdb_outside \<Rightarrow> 'f Point option \<Rightarrow> 'ts memoryDatabase
     \<Rightarrow> 'ts memoryDatabase \<times> mem_error option" where
  "Write out p db =
     (case p of
        None \<Rightarrow> (db, Some ErrEmptyFields)
      | Some point \<Rightarrow>
          (if pointFields point = [] then (db, Some ErrEmptyFields)
           else (case getOrCreateMStore out (pointName point) db of
                   (ms, db1) \<Rightarrow>
                     (if rejectWhenFull out \<and> isFull ms then (db1, Some ErrTooManyTags)
                      else (case getOrCreateTSStore out (pointTags point) ms of
                              Inl err \<Rightarrow> (db1, Some err)
                            | Inr (ts, ms1) \<Rightarrow>
                                (db1\<lparr>mStores := (mStores db1)
                                       (Fnv32a out (pointName point) \<mapsto>
                                          writeTSStore out point ms1)\<rparr>,
                                 None))))))"

definition freeze :: "'ts metricStore \<Rightarrow> 'ts metricStore" where
  "freeze ms = ms\<lparr>immutable := immutable ms @ [mutable ms], mutable := []\<rparr>"

definition freezeMetric ::
  "('f, 'ts) memdb_outside \<Rightarrow> string \<Rightarrow> 'ts memoryDatabase \<Rightarrow> 'ts memoryDatabase" where
  "freezeMetric out metric db =
     (case mStores db (Fnv32a out metric) of
        None \<Rightarrow> db
      | Some ms \<Rightarrow> db\<lparr>mStores := (mStores db)(Fnv32a out metric \<mapsto> freeze ms)\<rparr>)"

text \<open>A sequence of calls on the database: writes, and freezes of a metric in between.\<close>

datatype 'f call = CallWrite "'f Point option" | CallFreeze string

fun run :: "('f, 'ts) memdb_outside \<Rightarrow> 'f call list \<Rightarrow> 'ts memoryDatabase \<Rightarrow> 'ts memoryDatabase" where
  "run out [] db = db"
| "run out (CallWrite p # calls) db = run out calls (fst (Write out p db))"
| "run out (CallFreeze metric # calls) db = run out calls (freezeMetric out metric db)"

text \<open>The tag-sets a database holds under a metric hash, none when there is no store.\<close>

definition tagMaps ::
  "'ts memoryDatabase \<Rightarrow> 32 word \<Rightarrow> (string \<times> 'ts) list \<times> (string \<times> 'ts) list list" where
  "tagMaps db h = (case mStores db h of None \<Rightarrow> ([], []) | Some ms \<Rightarrow> (mutable ms, immutable ms))"

definition within_limits :: "'ts memoryDatabase \<Rightarrow> bool" where
  "within_limits db = (\<forall>h ms. mStores db h = Some ms \<longrightarrow> tagCount ms \<le> maxTagsLimit ms)"

section \<open>A small store, for the examples\<close>

text \<open>
  An encoding that keeps the edit log as it is, with the names of the first two manifests;
  an empty directory; a store with two levels and the family \<open>f\<close> of id 1; a file.
\<close>

definition example_outside :: "EditLog outside" where
  "example_outside =
     \<lparr>marshal = Some, unmarshal = Some,
      ManifestFileName = (\<lambda>n. if n = 1 then ''MANIFEST-000001'' else ''MANIFEST-000002'')\<rparr>"

definition example_world :: "EditLog world" where
  "example_world = \<lparr>texts = Map.empty, journals = Map.empty, trace = [], script = []\<rparr>"

definition example_store :: storeVersionSet where
  "example_store = snd (CreateFamilyVersion ''f'' 1 (NewStoreVersionSet ''db'' 2))"

definition example_file :: "int64 \<Rightarrow> FileMeta" where
  "example_file n = \<lparr>fileNumber = n, minKey = 10, maxKey = 20, fileSize = 100\<rparr>"


text \<open>
  The directory a first run of the store leaves behind: \<open>Recover\<close> in the empty
  directory, then twice a file number taken and a new file with that number committed to
  the family.
\<close>

definition example_flush ::
  "storeVersionSet \<times> EditLog world \<Rightarrow> storeVersionSet \<times> EditLog world" where
  "example_flush s =
     (case s of
        (vs, w) \<Rightarrow>
          (case NextFileNumber vs of
             (n, vs1) \<Rightarrow>
               (case CommitFamilyEditLog example_outside ''f''
                       \<lparr>familyID = 1, logs = [CreateNewFile 0 (example_file n)]\<rparr> vs1 w of
                  (editLog, vs2, w2, r) \<Rightarrow> (vs2, w2))))"

definition example_history :: "EditLog world" where
  "example_history =
     (case Recover example_outside [1] example_store example_world of
        (vs, w, r) \<Rightarrow> snd (example_flush (example_flush (vs, w))))"

text \<open>A hash for the examples, and a time-series store that counts the points merged.\<close>

definition example_memdb :: "(int, nat) memdb_outside" where
  "example_memdb =
     \<lparr>Fnv32a = (\<lambda>s. of_nat (length s)), newTSStore = 0,
      mergeFields = (\<lambda>point ts. Suc ts), rejectWhenFull = False\<rparr>"

definition example_point :: "string \<Rightarrow> int Point" where
  "example_point tagSet =
     \<lparr>pointName = ''cpu'', pointTags = tagSet, pointTimestamp = 0, pointFields = [(''load'', 1)]\<rparr>"
section \<open>File numbers\<close>

lemma NextFileNumber_eq:
  "NextFileNumber vs = (nextFileNumber vs, vs\<lparr>nextFileNumber := nextFileNumber vs + 1\<rparr>)"
  by (simp add: NextFileNumber_def Let_def)

lemma NextFileNumber_calls_values:
  "fst (NextFileNumber_calls k vs) = map (\<lambda>i. nextFileNumber vs + of_nat i) [0..<k]"
proof (induction k arbitrary: vs)
  case 0
  then show ?case by simp
next
  case (Suc k)
  have "map (\<lambda>i. nextFileNumber vs + of_nat i) [0..<Suc k] =
        nextFileNumber vs # map (\<lambda>i. nextFileNumber vs + 1 + of_nat i) [0..<k]"
    by (simp add: upt_rec [of 0 "Suc k"] map_Suc_upt [symmetric] del: upt_Suc add: add.assoc)
  moreover obtain ns vs2 where
    r: "NextFileNumber_calls k (vs\<lparr>nextFileNumber := nextFileNumber vs + 1\<rparr>) = (ns, vs2)"
    by (cases "NextFileNumber_calls k (vs\<lparr>nextFileNumber := nextFileNumber vs + 1\<rparr>)")
  moreover have "ns = map (\<lambda>i. nextFileNumber vs + 1 + of_nat i) [0..<k]"
    using Suc.IH [of "vs\<lparr>nextFileNumber := nextFileNumber vs + 1\<rparr>"] r by simp
  ultimately show ?case
    by (simp add: NextFileNumber_eq del: upt_Suc)
qed


lemma sint_add_small:
  fixes c :: int64
  assumes "sint c + int i < 2 ^ 63"
  shows "sint (c + of_nat i) = sint c + int i"
proof -
  have lo: "- (2 ^ 63) \<le> sint c" using sint_ge [of c] by simp
  have "c + of_nat i = word_of_int (sint c + int i)"
    by simp
  then have "sint (c + of_nat i) = signed_take_bit 63 (sint c + int i)"
    by (simp only: sint_sbintrunc') simp
  also have "\<dots> = sint c + int i"
    using lo assms by (intro signed_take_bit_int_eq_self) auto
  finally show ?thesis .
qed


text \<open>
  Claim C6, as the code has it. \<open>NextFileNumber\<close> adds one to the counter and returns the
  value the counter had before. Over \<open>k\<close> calls in a row that do not take the 64-bit counter
  past its largest value (the counter starts at \<open>c\<close> and \<open>c + k \<le> 2^63\<close>), the numbers
  returned are \<open>c, c + 1, \<dots>\<close>: strictly increasing as signed numbers, and pairwise distinct.
\<close>

theorem NextFileNumber_increasing:
  "NextFileNumber vs = (nextFileNumber vs, vs\<lparr>nextFileNumber := nextFileNumber vs + 1\<rparr>) \<and>
   (sint (nextFileNumber vs) + int k \<le> 2 ^ 63 \<longrightarrow>
      sorted_wrt (\<lambda>a b. sint a < sint b) (fst (NextFileNumber_calls k vs)) \<and>
      distinct (fst (NextFileNumber_calls k vs)) \<and>
      map sint (fst (NextFileNumber_calls k vs)) =
        map (\<lambda>i. sint (nextFileNumber vs) + int i) [0..<k])"
proof (intro conjI impI)
  show "NextFileNumber vs = (nextFileNumber vs, vs\<lparr>nextFileNumber := nextFileNumber vs + 1\<rparr>)"
    by (rule NextFileNumber_eq)
next
  assume bound: "sint (nextFileNumber vs) + int k \<le> 2 ^ 63"
  let ?ns = "fst (NextFileNumber_calls k vs)"
  have len: "length ?ns = k"
    by (simp add: NextFileNumber_calls_values)
  have val: "sint (?ns ! i) = sint (nextFileNumber vs) + int i" if "i < k" for i
    using that bound by (simp add: NextFileNumber_calls_values sint_add_small)
  show inc: "sorted_wrt (\<lambda>a b. sint a < sint b) ?ns"
    unfolding sorted_wrt_iff_nth_less using val len by auto
  show "distinct ?ns"
    unfolding distinct_conv_nth
  proof (intro allI impI)
    fix i j
    assume "i < length ?ns" "j < length ?ns" "i \<noteq> j"
    then have "sint (?ns ! i) \<noteq> sint (?ns ! j)"
      using val len by auto
    then show "?ns ! i \<noteq> ?ns ! j" by auto
  qed
  show "map sint ?ns = map (\<lambda>i. sint (nextFileNumber vs) + int i) [0..<k]"
    using val len by (intro nth_equalityI) auto
qed

theorem NextFileNumber_increasing_witness:
  "sint (nextFileNumber (NewStoreVersionSet ''db'' 7)) + int 3 \<le> 2 ^ 63 \<and>
   fst (NextFileNumber_calls 3 (NewStoreVersionSet ''db'' 7)) = [2, 3, 4] \<and>
   sorted_wrt (\<lambda>a b. sint a < sint b) (fst (NextFileNumber_calls 3 (NewStoreVersionSet ''db'' 7)))"
proof -
  have b: "sint (nextFileNumber (NewStoreVersionSet ''db'' 7)) + int 3 \<le> 2 ^ 63"
    by (simp add: NewStoreVersionSet_def)
  have v: "fst (NextFileNumber_calls 3 (NewStoreVersionSet ''db'' 7)) = [2, 3, 4]"
    by (simp add: NewStoreVersionSet_def NextFileNumber_eq numeral_3_eq_3)
  from NextFileNumber_increasing [of "NewStoreVersionSet ''db'' 7" 3] b v show ?thesis
    by blast
qed

text \<open>
  Without the bound the numbers are not increasing: at the largest 64-bit value the counter
  wraps, and the call after the one that returned \<open>2^63 - 1\<close> returns \<open>- 2^63\<close>.
\<close>

theorem NextFileNumber_wraps_counterexample:
  "fst (NextFileNumber_calls 2 ((NewStoreVersionSet ''db'' 7)\<lparr>nextFileNumber := 0x7FFFFFFFFFFFFFFF\<rparr>))
     = [0x7FFFFFFFFFFFFFFF, 0x8000000000000000] \<and>
   sint (0x7FFFFFFFFFFFFFFF :: int64) = 9223372036854775807 \<and>
   sint (0x8000000000000000 :: int64) = - 9223372036854775808 \<and>
   \<not> sorted_wrt (\<lambda>a b. sint a < sint b)
       (fst (NextFileNumber_calls 2
          ((NewStoreVersionSet ''db'' 7)\<lparr>nextFileNumber := 0x7FFFFFFFFFFFFFFF\<rparr>)))"
  by (simp add: NewStoreVersionSet_def NextFileNumber_eq numeral_2_eq_2)

section \<open>Registering a family\<close>

text \<open>
  Claim C7. \<open>CreateFamilyVersion\<close> is idempotent. When a family version exists under the
  name, the call returns it and changes nothing, the two maps included. Otherwise it
  creates a family version and registers it under the name and under the id. A second
  call with the same name, whatever its id, returns what the first returned and leaves
  the state of the first.
\<close>

theorem CreateFamilyVersion_idempotent:
  "(familyVersions vs family = Some fv \<longrightarrow>
      CreateFamilyVersion family fid vs = (fv, vs)) \<and>
   (familyVersions vs family = None \<longrightarrow>
      CreateFamilyVersion family fid vs =
        (newFamilyVersion fid family vs,
         vs\<lparr>familyVersions := (familyVersions vs)(family \<mapsto> newFamilyVersion fid family vs),
            familyIDs := (familyIDs vs)(fid \<mapsto> family)\<rparr>)) \<and>
   (case CreateFamilyVersion family fid vs of
      (fv1, vs1) \<Rightarrow> CreateFamilyVersion family fid' vs1 = (fv1, vs1))"
  by (cases "familyVersions vs family")
     (simp_all add: CreateFamilyVersion_def GetFamilyVersion_def Let_def)

theorem CreateFamilyVersion_idempotent_witness:
  "familyVersions (NewStoreVersionSet ''db'' 2) ''f'' = None \<and>
   CreateFamilyVersion ''f'' 1 (NewStoreVersionSet ''db'' 2) =
     (newFamilyVersion 1 ''f'' (NewStoreVersionSet ''db'' 2),
      (NewStoreVersionSet ''db'' 2)
        \<lparr>familyVersions := (familyVersions (NewStoreVersionSet ''db'' 2))
           (''f'' \<mapsto> newFamilyVersion 1 ''f'' (NewStoreVersionSet ''db'' 2)),
         familyIDs := (familyIDs (NewStoreVersionSet ''db'' 2))(1 \<mapsto> ''f'')\<rparr>) \<and>
   familyVersions (snd (CreateFamilyVersion ''f'' 1 (NewStoreVersionSet ''db'' 2))) ''f''
     = Some (fst (CreateFamilyVersion ''f'' 1 (NewStoreVersionSet ''db'' 2))) \<and>
   CreateFamilyVersion ''f'' 5 (snd (CreateFamilyVersion ''f'' 1 (NewStoreVersionSet ''db'' 2)))
     = CreateFamilyVersion ''f'' 1 (NewStoreVersionSet ''db'' 2)"
proof -
  have n: "familyVersions (NewStoreVersionSet ''db'' 2) ''f'' = None"
    by (simp add: NewStoreVersionSet_def)
  from CreateFamilyVersion_idempotent [of "NewStoreVersionSet ''db'' 2" "''f''" "newFamilyVersion 1 ''f'' (NewStoreVersionSet ''db'' 2)" 1 5] n
  show ?thesis
    by (simp split: prod.splits)
qed

section \<open>Committing an edit log\<close>

lemma persistEditLogs_single_ok:
  "persistEditLogs d writer [el] w = (w', None) \<Longrightarrow>
   \<exists>path v w1. writer = Some path \<and> marshal d el = Some v \<and>
     writerWrite path v w = (w1, True) \<and> writerSync path w1 = (w', True)"
  by (auto split: option.splits prod.splits bool.splits)

lemma writerWrite_ok:
  "writerWrite path v w = (w1, True) \<Longrightarrow>
   journals w1 = (journals w)(path \<mapsto> frames_of w path @ [Good v]) \<and>
   trace w1 = trace w @ [EvWrite path v] \<and> texts w1 = texts w"
  by (auto simp: writerWrite_def next_fault_def frames_of_def split: list.splits bool.splits if_splits)

lemma writerSync_ok:
  "writerSync path w = (w1, True) \<Longrightarrow>
   journals w1 = journals w \<and> trace w1 = trace w @ [EvSync path] \<and> texts w1 = texts w"
  by (auto simp: writerSync_def next_fault_def split: list.splits bool.splits if_splits)

lemma persistEditLogs_single_succeeds:
  assumes "writer = Some path" "marshal d el = Some v" "True \<notin> set (take 2 (script w))"
  shows "\<exists>w'. persistEditLogs d writer [el] w = (w', None)"
proof (cases "script w")
  case Nil
  with assms show ?thesis
    by (simp add: writerWrite_def writerSync_def next_fault_def)
next
  case (Cons b bs)
  with assms show ?thesis
    by (cases bs) (auto simp: writerWrite_def writerSync_def next_fault_def numeral_2_eq_2)
qed

lemma commit_unknown:
  "familyVersions vs family = None \<Longrightarrow>
   CommitFamilyEditLog d family editLog vs w = (editLog, vs, w, Some (ErrUnknownFamilyName family))"
  by (simp add: CommitFamilyEditLog_def GetFamilyVersion_def)

lemma commit_failed:
  "familyVersions vs family = Some fv \<Longrightarrow>
   persistEditLogs d (manifest vs) [Add editLog (NewNextFileNumber (nextFileNumber vs))] w
     = (w1, Some err) \<Longrightarrow>
   CommitFamilyEditLog d family editLog vs w =
     (Add editLog (NewNextFileNumber (nextFileNumber vs)), vs, w1, Some err)"
  by (simp add: CommitFamilyEditLog_def GetFamilyVersion_def Let_def)

lemma commit_done:
  "familyVersions vs family = Some fv \<Longrightarrow>
   persistEditLogs d (manifest vs) [Add editLog (NewNextFileNumber (nextFileNumber vs))] w
     = (w1, None) \<Longrightarrow>
   CommitFamilyEditLog d family editLog vs w =
     (Add editLog (NewNextFileNumber (nextFileNumber vs)),
      vs\<lparr>familyVersions := (familyVersions vs)
          (family \<mapsto> appendVersion
             (apply_edits (Add editLog (NewNextFileNumber (nextFileNumber vs)))
                (cloneVersion (fvCurrent fv))) fv)\<rparr>,
      w1, None)"
  by (simp add: CommitFamilyEditLog_def GetFamilyVersion_def Let_def GetSnapshot_def GetCurrent_def)

text \<open>
  Claim C1. For a family registered under the name, \<open>CommitFamilyEditLog\<close> appends to
  the edit log one next-file-number edit, carrying the current counter of the version
  set; it succeeds whenever the writer is open, the edit log marshals and neither the
  write nor the sync fails; and when it succeeds, the marshalled edit log has been
  written to the manifest and synced, and the new head of the family is a clone of the
  previous head with the edit log applied, the previous head being the first of the
  older versions. For a name never registered, it returns the unknown-family error and
  leaves the edit log, the version set and the directory as they were.
\<close>

theorem CommitFamilyEditLog_commit:
  "(familyVersions vs family = Some fv \<longrightarrow>
      logs (fst (CommitFamilyEditLog d family editLog vs w)) =
        logs editLog @ [NewNextFileNumber (nextFileNumber vs)] \<and>
      familyID (fst (CommitFamilyEditLog d family editLog vs w)) = familyID editLog) \<and>
   (familyVersions vs family = Some fv \<and> manifest vs = Some path \<and>
    marshal d (Add editLog (NewNextFileNumber (nextFileNumber vs))) = Some v \<and>
    True \<notin> set (take 2 (script w)) \<longrightarrow>
      snd (snd (snd (CommitFamilyEditLog d family editLog vs w))) = None) \<and>
   (familyVersions vs family = Some fv \<and>
    CommitFamilyEditLog d family editLog vs w = (editLog', vs', w', None) \<longrightarrow>
      (\<exists>path v. manifest vs = Some path \<and> marshal d editLog' = Some v \<and>
         journals w' = (journals w)(path \<mapsto> frames_of w path @ [Good v]) \<and>
         trace w' = trace w @ [EvWrite path v, EvSync path]) \<and>
      vs' = vs\<lparr>familyVersions := (familyVersions vs)
               (family \<mapsto> appendVersion (apply_edits editLog' (cloneVersion (fvCurrent fv))) fv)\<rparr> \<and>
      fvCurrent (the (familyVersions vs' family)) =
        apply_edits editLog' (cloneVersion (fvCurrent fv)) \<and>
      fvOlder (the (familyVersions vs' family)) = fvCurrent fv # fvOlder fv) \<and>
   (familyVersions vs family = None \<longrightarrow>
      CommitFamilyEditLog d family editLog vs w =
        (editLog, vs, w, Some (ErrUnknownFamilyName family)))"
proof (intro conjI impI)
  note persistEditLogs.simps [simp del]
  let ?el = "Add editLog (NewNextFileNumber (nextFileNumber vs))"
  obtain w1 r where p: "persistEditLogs d (manifest vs) [?el] w = (w1, r)"
    by (cases "persistEditLogs d (manifest vs) [?el] w")
  assume reg: "familyVersions vs family = Some fv"
  have "fst (CommitFamilyEditLog d family editLog vs w) = ?el"
  proof (cases r)
    case None
    with p commit_done [OF reg, of d editLog w w1] show ?thesis by simp
  next
    case (Some e)
    with p commit_failed [OF reg, of d editLog w w1 e] show ?thesis by simp
  qed
  then show "logs (fst (CommitFamilyEditLog d family editLog vs w)) =
        logs editLog @ [NewNextFileNumber (nextFileNumber vs)]"
    and "familyID (fst (CommitFamilyEditLog d family editLog vs w)) = familyID editLog"
    by (simp_all add: Add_def)
next
  note persistEditLogs.simps [simp del]
  assume "familyVersions vs family = None"
  then show "CommitFamilyEditLog d family editLog vs w =
        (editLog, vs, w, Some (ErrUnknownFamilyName family))"
    by (rule commit_unknown)
next
  note persistEditLogs.simps [simp del]
  let ?el = "Add editLog (NewNextFileNumber (nextFileNumber vs))"
  assume a: "familyVersions vs family = Some fv \<and> manifest vs = Some path \<and>
    marshal d ?el = Some v \<and> True \<notin> set (take 2 (script w))"
  then obtain w1 where "persistEditLogs d (manifest vs) [?el] w = (w1, None)"
    using persistEditLogs_single_succeeds [of "manifest vs" path d ?el v w] by auto
  with a commit_done [of vs family fv d editLog w w1]
  show "snd (snd (snd (CommitFamilyEditLog d family editLog vs w))) = None"
    by simp
next
  note persistEditLogs.simps [simp del]
  assume a: "familyVersions vs family = Some fv \<and>
    CommitFamilyEditLog d family editLog vs w = (editLog', vs', w', None)"
  let ?el = "Add editLog (NewNextFileNumber (nextFileNumber vs))"
  obtain w1 r where p: "persistEditLogs d (manifest vs) [?el] w = (w1, r)"
    by (cases "persistEditLogs d (manifest vs) [?el] w")
  from a have reg: "familyVersions vs family = Some fv" ..
  have r: "r = None"
  proof (cases r)
    case None
    then show ?thesis .
  next
    case (Some e)
    with a p commit_failed [OF reg, of d editLog w w1 e] show ?thesis by simp
  qed
  from a p r commit_done [OF reg, of d editLog w w1]
  have el: "editLog' = ?el" and w': "w' = w1"
    and vs0: "vs' = vs\<lparr>familyVersions := (familyVersions vs)
               (family \<mapsto> appendVersion (apply_edits ?el (cloneVersion (fvCurrent fv))) fv)\<rparr>"
    by auto
  from vs0 el show vs': "vs' = vs\<lparr>familyVersions := (familyVersions vs)
               (family \<mapsto> appendVersion (apply_edits editLog' (cloneVersion (fvCurrent fv))) fv)\<rparr>"
    by simp
  show "fvCurrent (the (familyVersions vs' family)) =
        apply_edits editLog' (cloneVersion (fvCurrent fv))"
    by (simp add: vs' appendVersion_def)
  show "fvOlder (the (familyVersions vs' family)) = fvCurrent fv # fvOlder fv"
    by (simp add: vs' appendVersion_def)
  from p r w' have "persistEditLogs d (manifest vs) [?el] w = (w', None)" by simp
  from persistEditLogs_single_ok [OF this] obtain path v w1 where
    m: "manifest vs = Some path" "marshal d ?el = Some v"
    and wr: "writerWrite path v w = (w1, True)" and sy: "writerSync path w1 = (w', True)"
    by blast
  from writerWrite_ok [OF wr] writerSync_ok [OF sy] m el
  show "\<exists>path v. manifest vs = Some path \<and> marshal d editLog' = Some v \<and>
         journals w' = (journals w)(path \<mapsto> frames_of w path @ [Good v]) \<and>
         trace w' = trace w @ [EvWrite path v, EvSync path]"
    by simp
qed


lemmas example_defs =
  example_store_def example_outside_def example_world_def example_file_def
  CreateFamilyVersion_def GetFamilyVersion_def NewStoreVersionSet_def newFamilyVersion_def Let_def

lemmas io_defs =
  writerWrite_def writerSync_def next_fault_def frames_of_def WriteFile_def Rename_def
  NewBufioWriter_def NewBufioReader_def ReadFile_def Exist_def

lemmas version_defs =
  Add_def GetSnapshot_def GetCurrent_def cloneVersion_def apply_edits_def addFile_def
  deleteFile_def appendVersion_def sortKey_def NewEditLog_def

theorem CommitFamilyEditLog_commit_witness:
  "familyVersions (example_store\<lparr>manifest := Some ''db/MANIFEST-000001''\<rparr>) ''f''
     = Some (newFamilyVersion 1 ''f'' (NewStoreVersionSet ''db'' 2)) \<and>
   familyVersions (example_store\<lparr>manifest := Some ''db/MANIFEST-000001''\<rparr>) ''g'' = None \<and>
   (case CommitFamilyEditLog example_outside ''f''
           \<lparr>familyID = 1, logs = [CreateNewFile 0 (example_file 3)]\<rparr>
           (example_store\<lparr>manifest := Some ''db/MANIFEST-000001''\<rparr>) example_world of
      (editLog', vs', w', r) \<Rightarrow>
        r = None \<and>
        logs editLog' = [CreateNewFile 0 (example_file 3), NewNextFileNumber 2] \<and>
        fvCurrent (the (familyVersions vs' ''f'')) = \<lparr>levels = [[example_file 3], []]\<rparr> \<and>
        fvOlder (the (familyVersions vs' ''f'')) = [\<lparr>levels = [[], []]\<rparr>] \<and>
        journals w' ''db/MANIFEST-000001'' = Some [Good editLog'] \<and>
        trace w' = [EvWrite ''db/MANIFEST-000001'' editLog', EvSync ''db/MANIFEST-000001'']) \<and>
   CommitFamilyEditLog example_outside ''g''
       \<lparr>familyID = 1, logs = [CreateNewFile 0 (example_file 3)]\<rparr>
       (example_store\<lparr>manifest := Some ''db/MANIFEST-000001''\<rparr>) example_world
     = (\<lparr>familyID = 1, logs = [CreateNewFile 0 (example_file 3)]\<rparr>,
        example_store\<lparr>manifest := Some ''db/MANIFEST-000001''\<rparr>, example_world,
        Some (ErrUnknownFamilyName ''g''))"
proof -
  let ?vs = "example_store\<lparr>manifest := Some ''db/MANIFEST-000001''\<rparr>"
  let ?el = "\<lparr>familyID = 1, logs = [CreateNewFile 0 (example_file 3)]\<rparr>"
  let ?fv = "newFamilyVersion 1 ''f'' (NewStoreVersionSet ''db'' 2)"
  obtain editLog' vs' w' r where
    c: "CommitFamilyEditLog example_outside ''f'' ?el ?vs example_world = (editLog', vs', w', r)"
    by (cases "CommitFamilyEditLog example_outside ''f'' ?el ?vs example_world")
  have reg: "familyVersions ?vs ''f'' = Some ?fv"
    by (simp add: example_defs)
  have unreg: "familyVersions ?vs ''g'' = None"
    by (simp add: example_defs)
  have m: "manifest ?vs = Some ''db/MANIFEST-000001''"
    by simp
  have n: "nextFileNumber ?vs = 2"
    by (simp add: example_defs)
  have enc: "marshal example_outside (Add ?el (NewNextFileNumber (nextFileNumber ?vs)))
      = Some (Add ?el (NewNextFileNumber (nextFileNumber ?vs)))"
    by (simp add: example_outside_def)
  have quiet: "True \<notin> set (take 2 (script example_world))"
    by (simp add: example_world_def)
  have cur: "fvCurrent ?fv = \<lparr>levels = [[], []]\<rparr>" and old: "fvOlder ?fv = []"
    by (simp_all add: newFamilyVersion_def NewStoreVersionSet_def numeral_2_eq_2)
  note T = CommitFamilyEditLog_commit [where vs = ?vs and family = "''f''" and fv = ?fv
      and editLog = ?el and d = example_outside and w = example_world
      and path = "''db/MANIFEST-000001''"
      and v = "Add ?el (NewNextFileNumber (nextFileNumber ?vs))"
      and editLog' = editLog' and vs' = vs' and w' = w']
  from T reg m enc quiet c have r: "r = None"
    by simp
  from T reg c have l: "logs editLog' = [CreateNewFile 0 (example_file 3), NewNextFileNumber 2]"
    by (simp add: n)
  from T reg c r have
    "fvCurrent (the (familyVersions vs' ''f'')) = apply_edits editLog' (cloneVersion (fvCurrent ?fv))"
    "fvOlder (the (familyVersions vs' ''f'')) = fvCurrent ?fv # fvOlder ?fv"
    "\<exists>path v. manifest ?vs = Some path \<and> marshal example_outside editLog' = Some v \<and>
         journals w' = (journals example_world)(path \<mapsto> frames_of example_world path @ [Good v]) \<and>
         trace w' = trace example_world @ [EvWrite path v, EvSync path]"
    by blast+
  with l cur old have
    "fvCurrent (the (familyVersions vs' ''f'')) = \<lparr>levels = [[example_file 3], []]\<rparr>"
    "fvOlder (the (familyVersions vs' ''f'')) = [\<lparr>levels = [[], []]\<rparr>]"
    "journals w' ''db/MANIFEST-000001'' = Some [Good editLog']"
    "trace w' = [EvWrite ''db/MANIFEST-000001'' editLog', EvSync ''db/MANIFEST-000001'']"
    by (auto simp: version_defs example_outside_def example_world_def frames_of_def)
  moreover from CommitFamilyEditLog_commit [where vs = ?vs and family = "''g''" and editLog = ?el
      and d = example_outside and w = example_world] unreg
  have "CommitFamilyEditLog example_outside ''g'' ?el ?vs example_world
     = (?el, ?vs, example_world, Some (ErrUnknownFamilyName ''g''))"
    by blast
  ultimately show ?thesis
    using reg unreg c r l by simp
qed

text \<open>
  Claim C3. In \<open>CommitFamilyEditLog\<close> the marshalling, the write and the sync come
  before any change of the versions. When \<open>persistEditLogs\<close> returns an error,
  \<open>CommitFamilyEditLog\<close> returns that error and the version set is the one it was given:
  every family has its head version, its level file lists and its chain as before. And
  whenever the call changes the version set at all, it returns no error and the write and
  the sync of the edit log are the two events it added to the trace.
\<close>

theorem CommitFamilyEditLog_persist_first:
  "(familyVersions vs family = Some fv \<and>
    persistEditLogs d (manifest vs) [Add editLog (NewNextFileNumber (nextFileNumber vs))] w
      = (w1, Some err) \<longrightarrow>
      CommitFamilyEditLog d family editLog vs w =
        (Add editLog (NewNextFileNumber (nextFileNumber vs)), vs, w1, Some err)) \<and>
   (CommitFamilyEditLog d family editLog vs w = (editLog', vs', w', r) \<and> vs' \<noteq> vs \<longrightarrow>
      r = None \<and>
      (\<exists>path v. manifest vs = Some path \<and> marshal d editLog' = Some v \<and>
         trace w' = trace w @ [EvWrite path v, EvSync path]))"
proof (intro conjI impI)
  note persistEditLogs.simps [simp del]
  assume "familyVersions vs family = Some fv \<and>
    persistEditLogs d (manifest vs) [Add editLog (NewNextFileNumber (nextFileNumber vs))] w
      = (w1, Some err)"
  then show "CommitFamilyEditLog d family editLog vs w =
        (Add editLog (NewNextFileNumber (nextFileNumber vs)), vs, w1, Some err)"
    using commit_failed by blast
next
  note persistEditLogs.simps [simp del]
  let ?el = "Add editLog (NewNextFileNumber (nextFileNumber vs))"
  assume a: "CommitFamilyEditLog d family editLog vs w = (editLog', vs', w', r) \<and> vs' \<noteq> vs"
  obtain fv where reg: "familyVersions vs family = Some fv"
    using a commit_unknown [of vs family d editLog w] by (cases "familyVersions vs family") auto
  obtain w1 r1 where p: "persistEditLogs d (manifest vs) [?el] w = (w1, r1)"
    by (cases "persistEditLogs d (manifest vs) [?el] w")
  have r1: "r1 = None"
  proof (cases r1)
    case None
    then show ?thesis .
  next
    case (Some e)
    with a p commit_failed [OF reg, of d editLog w w1 e] show ?thesis by auto
  qed
  from a p r1 commit_done [OF reg, of d editLog w w1]
  have el: "editLog' = ?el" and w': "w' = w1" and r: "r = None"
    by auto
  from p r1 w' have "persistEditLogs d (manifest vs) [?el] w = (w', None)" by simp
  from persistEditLogs_single_ok [OF this] obtain path v w2 where
    m: "manifest vs = Some path" "marshal d ?el = Some v"
    and wr: "writerWrite path v w = (w2, True)" and sy: "writerSync path w2 = (w', True)"
    by blast
  from r show "r = None" .
  from writerWrite_ok [OF wr] writerSync_ok [OF sy] m el
  show "\<exists>path v. manifest vs = Some path \<and> marshal d editLog' = Some v \<and>
         trace w' = trace w @ [EvWrite path v, EvSync path]"
    by simp
qed

theorem CommitFamilyEditLog_persist_first_witness:
  "familyVersions (example_store\<lparr>manifest := Some ''db/MANIFEST-000001''\<rparr>) ''f''
     = Some (newFamilyVersion 1 ''f'' (NewStoreVersionSet ''db'' 2)) \<and>
   snd (persistEditLogs example_outside (Some ''db/MANIFEST-000001'')
          [\<lparr>familyID = 1, logs = [CreateNewFile 0 (example_file 3), NewNextFileNumber 2]\<rparr>]
          (example_world\<lparr>script := [False, True]\<rparr>)) = Some ErrSync \<and>
   (case CommitFamilyEditLog example_outside ''f''
           \<lparr>familyID = 1, logs = [CreateNewFile 0 (example_file 3)]\<rparr>
           (example_store\<lparr>manifest := Some ''db/MANIFEST-000001''\<rparr>)
           (example_world\<lparr>script := [False, True]\<rparr>) of
      (editLog', vs', w', r) \<Rightarrow>
        r = Some ErrSync \<and> vs' = example_store\<lparr>manifest := Some ''db/MANIFEST-000001''\<rparr> \<and>
        trace w' = [EvWrite ''db/MANIFEST-000001'' editLog'])"
proof -
  let ?vs = "example_store\<lparr>manifest := Some ''db/MANIFEST-000001''\<rparr>"
  let ?el = "\<lparr>familyID = 1, logs = [CreateNewFile 0 (example_file 3)]\<rparr>"
  let ?el1 = "\<lparr>familyID = 1, logs = [CreateNewFile 0 (example_file 3), NewNextFileNumber 2]\<rparr>"
  let ?fv = "newFamilyVersion 1 ''f'' (NewStoreVersionSet ''db'' 2)"
  let ?w = "example_world\<lparr>script := [False, True]\<rparr>"
  let ?w1 = "\<lparr>texts = Map.empty, journals = [''db/MANIFEST-000001'' \<mapsto> [Good ?el1]],
     trace = [EvWrite ''db/MANIFEST-000001'' ?el1], script = []\<rparr> :: EditLog world"
  have reg: "familyVersions ?vs ''f'' = Some ?fv"
    by (simp add: example_defs)
  have el1: "Add ?el (NewNextFileNumber (nextFileNumber ?vs)) = ?el1"
    by (simp add: example_defs Add_def)
  have p: "persistEditLogs example_outside (Some ''db/MANIFEST-000001'') [?el1] ?w = (?w1, Some ErrSync)"
    by (simp add: example_defs io_defs)
  from CommitFamilyEditLog_persist_first [where vs = ?vs and family = "''f''" and fv = ?fv
      and d = example_outside and editLog = ?el and w = ?w and ?w1.0 = ?w1 and err = ErrSync]
    reg el1 p
  have "CommitFamilyEditLog example_outside ''f'' ?el ?vs ?w = (?el1, ?vs, ?w1, Some ErrSync)"
    by simp
  with reg p show ?thesis
    by simp
qed

section \<open>The CURRENT file\<close>

lemma tmp_neq_cur: "cur @ ''.'' @ TmpSuffix \<noteq> cur"
  by (simp add: TmpSuffix_def)

lemma WriteFile_cases:
  "WriteFile path content w = (w1, ok) \<Longrightarrow>
   journals w1 = journals w \<and>
   (if ok then texts w1 = (texts w)(path \<mapsto> content) \<and>
               trace w1 = trace w @ [EvWriteFile path content]
    else texts w1 = texts w \<and> trace w1 = trace w)"
  by (auto simp: WriteFile_def next_fault_def split: list.splits bool.splits if_splits)

lemma Rename_cases:
  "Rename old new w = (w1, ok) \<Longrightarrow>
   journals w1 = journals w \<and>
   (if ok then (\<exists>content. texts w old = Some content \<and>
                  texts w1 = ((texts w)(old := None))(new \<mapsto> content)) \<and>
               trace w1 = trace w @ [EvRename old new]
    else texts w1 = texts w \<and> trace w1 = trace w)"
  by (auto simp: Rename_def next_fault_def split: list.splits bool.splits if_splits option.splits)

lemma setCurrent_ok:
  assumes "setCurrent vs name w = (w', None)"
  shows "trace w' = trace w @ [EvWriteFile (getCurrentPath vs @ ''.'' @ TmpSuffix) name,
                               EvRename (getCurrentPath vs @ ''.'' @ TmpSuffix) (getCurrentPath vs)]"
    and "texts w' (getCurrentPath vs) = Some name"
    and "journals w' = journals w"
proof -
  let ?cur = "getCurrentPath vs" and ?tmp = "getCurrentPath vs @ ''.'' @ TmpSuffix"
  from assms obtain w1 where
    a: "WriteFile ?tmp name w = (w1, True)" and b: "Rename ?tmp ?cur w1 = (w', True)"
    by (auto simp: setCurrent_def Let_def split: prod.splits bool.splits)
  from WriteFile_cases [OF a] Rename_cases [OF b]
  show "trace w' = trace w @ [EvWriteFile ?tmp name, EvRename ?tmp ?cur]"
    and "texts w' ?cur = Some name" and "journals w' = journals w"
    by auto
qed

lemma setCurrent_failed:
  assumes "setCurrent vs name w = (w', Some err)"
  shows "texts w' (getCurrentPath vs) = texts w (getCurrentPath vs)"
    and "journals w' = journals w"
    and "err = ErrWriteTmp \<or> err = ErrRename"
    and "\<forall>old. EvRename old (getCurrentPath vs) \<notin> set (trace w') - set (trace w)"
proof -
  let ?cur = "getCurrentPath vs" and ?tmp = "getCurrentPath vs @ ''.'' @ TmpSuffix"
  obtain w1 ok1 where a: "WriteFile ?tmp name w = (w1, ok1)"
    by (cases "WriteFile ?tmp name w")
  obtain w2 ok2 where b: "Rename ?tmp ?cur w1 = (w2, ok2)"
    by (cases "Rename ?tmp ?cur w1")
  have c: "?tmp \<noteq> ?cur" by (rule tmp_neq_cur)
  from assms a b have d: "(\<not> ok1 \<and> w' = w1 \<and> err = ErrWriteTmp) \<or> (ok1 \<and> \<not> ok2 \<and> w' = w2 \<and> err = ErrRename)"
    by (auto simp: setCurrent_def Let_def split: prod.splits bool.splits)
  with WriteFile_cases [OF a] Rename_cases [OF b] c
  show "texts w' ?cur = texts w ?cur" and "journals w' = journals w"
    and "err = ErrWriteTmp \<or> err = ErrRename"
    and "\<forall>old. EvRename old ?cur \<notin> set (trace w') - set (trace w)"
    by (auto split: if_splits)
qed

lemma setCurrent_succeeds:
  assumes "True \<notin> set (take 2 (script w))"
  shows "\<exists>w'. setCurrent vs name w = (w', None)"
proof (cases "script w")
  case Nil
  with assms show ?thesis
    by (simp add: setCurrent_def WriteFile_def Rename_def next_fault_def Let_def)
next
  case (Cons b bs)
  with assms show ?thesis
    by (cases bs) (auto simp: setCurrent_def WriteFile_def Rename_def next_fault_def Let_def numeral_2_eq_2)
qed

text \<open>
  Claim C5, as the code has it. \<open>setCurrent\<close> writes the manifest file name to the
  temporary file and renames the temporary file onto CURRENT: these two calls and no
  other, so no sync of the temporary file. It succeeds when neither call fails, and then
  CURRENT holds the new name. When it returns an error, CURRENT holds what it held
  before. In both cases the journals are untouched.
\<close>

theorem setCurrent_write_rename:
  "(True \<notin> set (take 2 (script w)) \<longrightarrow> snd (setCurrent vs name w) = None) \<and>
   (setCurrent vs name w = (w', None) \<longrightarrow>
      trace w' = trace w @ [EvWriteFile (getCurrentPath vs @ ''.'' @ TmpSuffix) name,
                           EvRename (getCurrentPath vs @ ''.'' @ TmpSuffix) (getCurrentPath vs)] \<and>
      texts w' (getCurrentPath vs) = Some name \<and>
      journals w' = journals w) \<and>
   (setCurrent vs name w = (w', Some err) \<longrightarrow>
      texts w' (getCurrentPath vs) = texts w (getCurrentPath vs) \<and>
      journals w' = journals w \<and>
      (err = ErrWriteTmp \<or> err = ErrRename))"
proof (intro conjI impI)
  assume "True \<notin> set (take 2 (script w))"
  from setCurrent_succeeds [OF this, of vs name]
  show "snd (setCurrent vs name w) = None" by auto
next
  assume a: "setCurrent vs name w = (w', None)"
  from setCurrent_ok [OF a]
  show "trace w' = trace w @ [EvWriteFile (getCurrentPath vs @ ''.'' @ TmpSuffix) name,
                           EvRename (getCurrentPath vs @ ''.'' @ TmpSuffix) (getCurrentPath vs)]"
    and "texts w' (getCurrentPath vs) = Some name" and "journals w' = journals w"
    by simp_all
next
  assume a: "setCurrent vs name w = (w', Some err)"
  from setCurrent_failed [OF a]
  show "texts w' (getCurrentPath vs) = texts w (getCurrentPath vs)"
    and "journals w' = journals w" and "err = ErrWriteTmp \<or> err = ErrRename"
    by simp_all
qed

lemmas path_defs = getCurrentPath_def getManifestFilePath_def joinPath_def current_def TmpSuffix_def

theorem setCurrent_write_rename_witness:
  "True \<notin> set (take 2 (script example_world)) \<and>
   snd (setCurrent example_store ''MANIFEST-000001'' example_world) = None \<and>
   texts (fst (setCurrent example_store ''MANIFEST-000001'' example_world)) ''db/CURRENT''
     = Some ''MANIFEST-000001''"
proof -
  obtain w' r where s: "setCurrent example_store ''MANIFEST-000001'' example_world = (w', r)"
    by (cases "setCurrent example_store ''MANIFEST-000001'' example_world")
  have q: "True \<notin> set (take 2 (script example_world))"
    by (simp add: example_world_def)
  have p: "getCurrentPath example_store = ''db/CURRENT''"
    by (simp add: path_defs example_defs)
  note T = setCurrent_write_rename [where w = example_world and vs = example_store
      and name = "''MANIFEST-000001''" and w' = w']
  from T q s have "r = None" by simp
  with T s p q show ?thesis by simp
qed

text \<open>
  The update in an empty directory: the trace is the write and the rename, and holds no
  sync of the temporary file.
\<close>

theorem setCurrent_no_fsync_counterexample:
  "trace (fst (setCurrent example_store ''MANIFEST-000001'' example_world)) =
     [EvWriteFile ''db/CURRENT.TMP'' ''MANIFEST-000001'',
      EvRename ''db/CURRENT.TMP'' ''db/CURRENT''] \<and>
   EvSync ''db/CURRENT.TMP'' \<notin>
     set (trace (fst (setCurrent example_store ''MANIFEST-000001'' example_world))) \<and>
   snd (setCurrent example_store ''MANIFEST-000001'' example_world) = None"
  by (simp add: setCurrent_def path_defs example_defs io_defs)

section \<open>The journal and the snapshot\<close>

lemma writerWrite_cases:
  "writerWrite path v w = (w1, ok) \<Longrightarrow>
   texts w1 = texts w \<and>
   (if ok then frames_of w1 path = frames_of w path @ [Good v] \<and>
               (\<forall>q. q \<noteq> path \<longrightarrow> journals w1 q = journals w q) \<and>
               trace w1 = trace w @ [EvWrite path v]
    else journals w1 = journals w \<and> trace w1 = trace w)"
  by (auto simp: writerWrite_def next_fault_def frames_of_def split: list.splits bool.splits if_splits)

lemma writerSync_cases:
  "writerSync path w = (w1, ok) \<Longrightarrow>
   texts w1 = texts w \<and> journals w1 = journals w \<and>
   (if ok then trace w1 = trace w @ [EvSync path] else trace w1 = trace w)"
  by (auto simp: writerSync_def next_fault_def split: list.splits bool.splits if_splits)

lemma NewBufioWriter_cases:
  "NewBufioWriter path w = (w1, r) \<Longrightarrow>
   texts w1 = texts w \<and>
   (case r of
      None \<Rightarrow> journals w1 = journals w \<and> trace w1 = trace w
    | Some writer \<Rightarrow> writer = path \<and> frames_of w1 path = frames_of w path \<and>
        (\<forall>q. q \<noteq> path \<longrightarrow> journals w1 q = journals w q) \<and>
        trace w1 = trace w @ [EvOpenWriter path])"
  by (auto simp: NewBufioWriter_def next_fault_def frames_of_def
      split: list.splits bool.splits if_splits option.splits)

lemma persistEditLogs_texts:
  "persistEditLogs d writer els w = (w', r) \<Longrightarrow> texts w' = texts w"
proof (induction els arbitrary: w)
  case Nil
  then show ?case by simp
next
  case (Cons el els)
  show ?case
  proof (cases "marshal d el")
    case None
    with Cons.prems show ?thesis by simp
  next
    case (Some v)
    show ?thesis
    proof (cases writer)
      case None
      with Some Cons.prems show ?thesis by simp
    next
      case (Some path)
      obtain w1 ok1 where a: "writerWrite path v w = (w1, ok1)"
        by (cases "writerWrite path v w")
      obtain w2 ok2 where b: "writerSync path w1 = (w2, ok2)"
        by (cases "writerSync path w1")
      from writerWrite_cases [OF a] writerSync_cases [OF b]
      have t: "texts w1 = texts w" "texts w2 = texts w" by simp_all
      show ?thesis
      proof (cases "ok1 \<and> ok2")
        case True
        with Cons.prems \<open>marshal d el = Some v\<close> Some a b
        have "persistEditLogs d writer els w2 = (w', r)" by simp
        from Cons.IH [OF this] t show ?thesis by simp
      next
        case False
        with Cons.prems \<open>marshal d el = Some v\<close> Some a b t show ?thesis
          by (cases ok1; cases ok2) auto
      qed
    qed
  qed
qed

lemma persistEditLogs_ok:
  "persistEditLogs d (Some path) els w = (w', None) \<Longrightarrow>
   \<exists>ps. map (marshal d) els = map Some ps \<and>
        trace w' = trace w @ concat (map (\<lambda>v. [EvWrite path v, EvSync path]) ps) \<and>
        frames_of w' path = frames_of w path @ map Good ps \<and>
        (\<forall>q. q \<noteq> path \<longrightarrow> journals w' q = journals w q)"
proof (induction els arbitrary: w)
  case Nil
  then show ?case by simp
next
  case (Cons el els)
  from Cons.prems obtain v w1 w2 where
    m: "marshal d el = Some v" and a: "writerWrite path v w = (w1, True)"
    and b: "writerSync path w1 = (w2, True)"
    and rest: "persistEditLogs d (Some path) els w2 = (w', None)"
    by (auto split: option.splits prod.splits bool.splits)
  from Cons.IH [OF rest] obtain ps where
    ps: "map (marshal d) els = map Some ps"
      "trace w' = trace w2 @ concat (map (\<lambda>v. [EvWrite path v, EvSync path]) ps)"
      "frames_of w' path = frames_of w2 path @ map Good ps"
      "\<forall>q. q \<noteq> path \<longrightarrow> journals w' q = journals w2 q"
    by blast
  from writerWrite_cases [OF a] writerSync_cases [OF b]
  have w2: "trace w2 = trace w @ [EvWrite path v, EvSync path]"
    "frames_of w2 path = frames_of w path @ [Good v]"
    "\<forall>q. q \<noteq> path \<longrightarrow> journals w2 q = journals w q"
    by (simp_all add: frames_of_def)
  show ?case
  proof (intro exI [of _ "v # ps"] conjI)
    show "map (marshal d) (el # els) = map Some (v # ps)" using m ps by simp
    show "trace w' = trace w @ concat (map (\<lambda>v. [EvWrite path v, EvSync path]) (v # ps))"
      using ps w2 by simp
    show "frames_of w' path = frames_of w path @ map Good (v # ps)"
      using ps w2 by simp
    show "\<forall>q. q \<noteq> path \<longrightarrow> journals w' q = journals w q"
      using ps w2 by simp
  qed
qed


lemma foldl_Add_logs:
  "foldl (\<lambda>editLog file. Add editLog (g file)) el fs =
     el\<lparr>logs := logs el @ map g fs\<rparr>"
  by (induction fs arbitrary: el) (simp_all add: Add_def)

lemma foldl_levels_logs:
  "foldl (\<lambda>editLog (numOfLevel, files).
            foldl (\<lambda>editLog file. Add editLog (CreateNewFile numOfLevel file)) editLog files)
       el lvls =
     el\<lparr>logs := logs el @ concat (map (\<lambda>(numOfLevel, files). map (CreateNewFile numOfLevel) files) lvls)\<rparr>"
  by (induction lvls arbitrary: el) (simp_all add: foldl_Add_logs split: prod.splits)

lemma createFamilySnapshot_eq:
  "createFamilySnapshot fid fv =
     \<lparr>familyID = fid,
      logs = concat (map (\<lambda>(numOfLevel, files). map (CreateNewFile numOfLevel) files)
                      (enumerate 0 (levels (fvCurrent fv))))\<rparr>"
  by (simp add: createFamilySnapshot_def foldl_levels_logs NewEditLog_def GetSnapshot_def
      GetCurrent_def Let_def)

lemma createStoreSnapshot_eq:
  "createStoreSnapshot vs =
     \<lparr>familyID = StoreFamilyID, logs = [NewNextFileNumber (nextFileNumber vs)]\<rparr>"
  by (simp add: createStoreSnapshot_def NewEditLog_def Add_def)


lemma initJournal_open:
  "manifest vs = Some p \<Longrightarrow> initJournal d ids vs w = (vs, w, None)"
  by (simp add: initJournal_def)

lemma initJournal_ok:
  assumes m: "manifest vs = None" and i: "initJournal d ids vs w = (vs', w', None)"
  defines "mname \<equiv> ManifestFileName d (manifestFileNumber vs)"
  defines "mp \<equiv> getManifestFilePath vs (ManifestFileName d (manifestFileNumber vs))"
  shows "\<exists>editLogs ps. createSnapshot ids vs = Some editLogs \<and>
           map (marshal d) editLogs = map Some ps \<and>
           trace w' = trace w @ [EvOpenWriter mp] @
             concat (map (\<lambda>v. [EvWrite mp v, EvSync mp]) ps) @
             [EvWriteFile (getCurrentPath vs @ ''.'' @ TmpSuffix) mname,
              EvRename (getCurrentPath vs @ ''.'' @ TmpSuffix) (getCurrentPath vs)] \<and>
           frames_of w' mp = frames_of w mp @ map Good ps"
    and "texts w' (getCurrentPath vs) = Some mname"
    and "vs' = vs\<lparr>manifest := Some mp\<rparr>"
proof -
  note persistEditLogs.simps [simp del]
  from m i obtain w1 writer editLogs w2 where
    o: "NewBufioWriter mp w = (w1, Some writer)"
    and c: "createSnapshot ids vs = Some editLogs"
    and p: "persistEditLogs d (Some writer) editLogs w1 = (w2, None)"
    and s: "setCurrent vs mname w2 = (w', None)"
    and v: "vs' = vs\<lparr>manifest := Some writer\<rparr>"
    unfolding initJournal_def mp_def mname_def Let_def
    by (auto split: option.splits prod.splits)
  from NewBufioWriter_cases [OF o] have
    w1: "writer = mp" "frames_of w1 mp = frames_of w mp" "trace w1 = trace w @ [EvOpenWriter mp]"
    by simp_all
  from persistEditLogs_ok [OF p [unfolded w1(1)]] obtain ps where
    ps: "map (marshal d) editLogs = map Some ps"
      "trace w2 = trace w1 @ concat (map (\<lambda>v. [EvWrite mp v, EvSync mp]) ps)"
      "frames_of w2 mp = frames_of w1 mp @ map Good ps"
    by blast
  from setCurrent_ok [OF s] have
    w3: "trace w' = trace w2 @ [EvWriteFile (getCurrentPath vs @ ''.'' @ TmpSuffix) mname,
              EvRename (getCurrentPath vs @ ''.'' @ TmpSuffix) (getCurrentPath vs)]"
      "texts w' (getCurrentPath vs) = Some mname" "journals w' = journals w2"
    by simp_all
  from w3(3) have "frames_of w' mp = frames_of w2 mp" by (simp add: frames_of_def)
  with c ps w1 w3 show "\<exists>editLogs ps. createSnapshot ids vs = Some editLogs \<and>
           map (marshal d) editLogs = map Some ps \<and>
           trace w' = trace w @ [EvOpenWriter mp] @
             concat (map (\<lambda>v. [EvWrite mp v, EvSync mp]) ps) @
             [EvWriteFile (getCurrentPath vs @ ''.'' @ TmpSuffix) mname,
              EvRename (getCurrentPath vs @ ''.'' @ TmpSuffix) (getCurrentPath vs)] \<and>
           frames_of w' mp = frames_of w mp @ map Good ps"
    by auto
  from w3 show "texts w' (getCurrentPath vs) = Some mname" by simp
  from v w1 show "vs' = vs\<lparr>manifest := Some mp\<rparr>" by simp
qed

lemma initJournal_failed:
  assumes i: "initJournal d ids vs w = (vs', w', Some err)"
  shows "vs' = vs" and "texts w' (getCurrentPath vs) = texts w (getCurrentPath vs)"
proof -
  note persistEditLogs.simps [simp del]
  let ?mname = "ManifestFileName d (manifestFileNumber vs)"
  let ?mp = "getManifestFilePath vs ?mname"
  from i have m: "manifest vs = None"
    by (cases "manifest vs") (simp_all add: initJournal_def)
  obtain w1 r1 where o: "NewBufioWriter ?mp w = (w1, r1)"
    by (cases "NewBufioWriter ?mp w")
  from NewBufioWriter_cases [OF o] have t1: "texts w1 = texts w" by simp
  show "vs' = vs"
    using i m by (auto simp: initJournal_def Let_def split: option.splits prod.splits)
  show "texts w' (getCurrentPath vs) = texts w (getCurrentPath vs)"
  proof (cases r1)
    case None
    with i m o t1 show ?thesis by (simp add: initJournal_def Let_def)
  next
    case (Some writer)
    show ?thesis
    proof (cases "createSnapshot ids vs")
      case None
      with i m o t1 Some show ?thesis by (simp add: initJournal_def Let_def)
    next
      case (Some editLogs)
      obtain w2 r2 where p: "persistEditLogs d (Some writer) editLogs w1 = (w2, r2)"
        by (cases "persistEditLogs d (Some writer) editLogs w1")
      from persistEditLogs_texts [OF p] t1 have t2: "texts w2 = texts w" by simp
      show ?thesis
      proof (cases r2)
        case (Some e)
        with i m o \<open>r1 = Some writer\<close> \<open>createSnapshot ids vs = Some editLogs\<close> p t2
        show ?thesis by (simp add: initJournal_def Let_def)
      next
        case None
        obtain w3 r3 where s: "setCurrent vs ?mname w2 = (w3, r3)"
          by (cases "setCurrent vs ?mname w2")
        with i m o \<open>r1 = Some writer\<close> \<open>createSnapshot ids vs = Some editLogs\<close> p None
        obtain e where "r3 = Some e" "w' = w3"
          by (cases r3) (auto simp: initJournal_def Let_def)
        with setCurrent_failed(1) [of vs ?mname w2 w3 e] s t2 show ?thesis by simp
      qed
    qed
  qed
qed










section \<open>Recovery\<close>

lemma foldl_applyLogVersionSet_fields:
  "familyIDs (foldl (\<lambda>vs l. applyLogVersionSet l vs) vs ls) = familyIDs vs \<and>
   familyVersions (foldl (\<lambda>vs l. applyLogVersionSet l vs) vs ls) = familyVersions vs \<and>
   storePath (foldl (\<lambda>vs l. applyLogVersionSet l vs) vs ls) = storePath vs \<and>
   manifest (foldl (\<lambda>vs l. applyLogVersionSet l vs) vs ls) = manifest vs"
proof (induction ls arbitrary: vs)
  case Nil
  then show ?case by simp
next
  case (Cons l ls)
  then show ?case
    by (cases l) (simp_all add: setNextFileNumberWithoutLock_def)
qed

lemma applyVersionSet_fields:
  "familyIDs (applyVersionSet el vs) = familyIDs vs"
  "familyVersions (applyVersionSet el vs) = familyVersions vs"
  "storePath (applyVersionSet el vs) = storePath vs"
  "manifest (applyVersionSet el vs) = manifest vs"
  by (simp_all add: applyVersionSet_def foldl_applyLogVersionSet_fields)

lemma in_place_fields:
  "familyIDs (in_place fid f vs) = familyIDs vs"
  "dom (familyVersions (in_place fid f vs)) = dom (familyVersions vs)"
  "storePath (in_place fid f vs) = storePath vs"
  "manifest (in_place fid f vs) = manifest vs"
  "nextFileNumber (in_place fid f vs) = nextFileNumber vs"
  "manifestFileNumber (in_place fid f vs) = manifestFileNumber vs"
  by (auto simp: in_place_def split: option.splits if_splits)

lemma applyFamilyVersion_known:
  "getFamilyVersion vs fid = Some fv \<Longrightarrow>
   applyFamilyVersion fid el vs =
     (in_place fid (\<lambda>fv. fv\<lparr>fvCurrent := apply_edits el (fvCurrent fv)\<rparr>) vs, None)"
  by (auto simp: applyFamilyVersion_def in_place_def getFamilyVersion_def GetSnapshot_def
      GetCurrent_def Let_def split: option.splits)

lemma applyFamilyVersion_unknown:
  "getFamilyVersion vs fid = None \<Longrightarrow>
   applyFamilyVersion fid el vs = (vs, Some (ErrUnknownFamilyID fid))"
  by (simp add: applyFamilyVersion_def)

lemma applyFamilyVersion_fields:
  assumes "applyFamilyVersion fid el vs = (vs1, r)"
  shows "familyIDs vs1 = familyIDs vs" "dom (familyVersions vs1) = dom (familyVersions vs)"
    "storePath vs1 = storePath vs" "manifest vs1 = manifest vs"
    "nextFileNumber vs1 = nextFileNumber vs" "manifestFileNumber vs1 = manifestFileNumber vs"
proof -
  from assms have "vs1 = vs \<or>
      vs1 = in_place fid (\<lambda>fv. fv\<lparr>fvCurrent := apply_edits el (fvCurrent fv)\<rparr>) vs"
    using applyFamilyVersion_known [of vs fid _ el] applyFamilyVersion_unknown [of vs fid el]
    by (cases "getFamilyVersion vs fid") auto
  then show "familyIDs vs1 = familyIDs vs" "dom (familyVersions vs1) = dom (familyVersions vs)"
    "storePath vs1 = storePath vs" "manifest vs1 = manifest vs"
    "nextFileNumber vs1 = nextFileNumber vs" "manifestFileNumber vs1 = manifestFileNumber vs"
    by (elim disjE; simp add: in_place_fields)+
qed

lemma recover_loop_fields:
  "recover_loop d frs vs = (vs1, r) \<Longrightarrow>
   familyIDs vs1 = familyIDs vs \<and> dom (familyVersions vs1) = dom (familyVersions vs) \<and>
   storePath vs1 = storePath vs \<and> manifest vs1 = manifest vs"
proof (induction frs arbitrary: vs)
  case Nil
  then show ?case by simp
next
  case (Cons fr frs)
  show ?case
  proof (cases fr)
    case Bad
    with Cons.prems show ?thesis by simp
  next
    case (Good p)
    show ?thesis
    proof (cases "unmarshal d p")
      case None
      with Good Cons.prems show ?thesis by simp
    next
      case (Some el)
      show ?thesis
      proof (cases "familyID el = StoreFamilyID")
        case True
        with Good Some Cons.prems
        have "recover_loop d frs (applyVersionSet el vs) = (vs1, r)" by simp
        from Cons.IH [OF this] show ?thesis by (simp add: applyVersionSet_fields)
      next
        case False
        obtain vs2 r2 where a: "applyFamilyVersion (familyID el) el vs = (vs2, r2)"
          by (cases "applyFamilyVersion (familyID el) el vs")
        note f = applyFamilyVersion_fields [OF a]
        show ?thesis
        proof (cases r2)
          case None
          with Good Some False a Cons.prems have "recover_loop d frs vs2 = (vs1, r)" by simp
          from Cons.IH [OF this] f show ?thesis by simp
        next
          case (Some e)
          with Good \<open>unmarshal d p = Some el\<close> False a Cons.prems f show ?thesis by simp
        qed
      qed
    qed
  qed
qed

lemma recover_loop_append:
  "recover_loop d (xs @ ys) vs =
     (case recover_loop d xs vs of
        (vs1, Some err) \<Rightarrow> (vs1, Some err)
      | (vs1, None) \<Rightarrow> recover_loop d ys vs1)"
  by (induction xs arbitrary: vs)
     (auto split: frame.splits option.splits prod.splits)

lemma getFamilyVersion_None_iff:
  "familyIDs vs1 = familyIDs vs \<Longrightarrow> dom (familyVersions vs1) = dom (familyVersions vs) \<Longrightarrow>
   getFamilyVersion vs1 fid = None \<longleftrightarrow> getFamilyVersion vs fid = None"
  by (auto simp: getFamilyVersion_def split: option.splits)

lemma recover_loop_unknown:
  assumes u: "unmarshal d p = Some el" "familyID el \<noteq> StoreFamilyID"
    "familyIDs vs (familyID el) = None"
  shows "\<exists>vs1 err. recover_loop d (pre @ Good p # post) vs = (vs1, Some err) \<and>
           (snd (recover_loop d pre vs) = None \<longrightarrow> err = ErrUnknownFamilyID (familyID el))"
proof -
  obtain vs0 r0 where a: "recover_loop d pre vs = (vs0, r0)"
    by (cases "recover_loop d pre vs")
  show ?thesis
  proof (cases r0)
    case (Some e)
    with a show ?thesis by (simp add: recover_loop_append)
  next
    case None
    from recover_loop_fields [OF a] u(3) have "getFamilyVersion vs0 (familyID el) = None"
      by (simp add: getFamilyVersion_def)
    from applyFamilyVersion_unknown [OF this] a None u show ?thesis
      by (simp add: recover_loop_append)
  qed
qed

lemma Recover_replays:
  assumes "texts w (getCurrentPath vs) = Some name"
    "journals w (getManifestFilePath vs name) = Some frames"
  shows "Recover d ids vs w =
     (case recover_loop d frames vs of
        (vs1, Some err) \<Rightarrow> (vs1, w, Some err)
      | (vs1, None) \<Rightarrow> initJournal d ids vs1 w)"
  using assms
  by (simp add: Recover_def recover_def readManifestFileName_def ReadFile_def NewBufioReader_def
      Exist_def getCurrentPath_def)

text \<open>
  Claim C10. When CURRENT exists and the manifest it names holds a record that decodes
  to an edit log whose family id is neither the store family id nor an id registered by
  \<open>CreateFamilyVersion\<close>, \<open>Recover\<close> returns an error: the unknown-family-id error when
  the records before it replay without error, and the error of the first record that
  fails otherwise. It registers no family and opens no manifest writer: the two family
  maps have the keys they had.
\<close>

theorem Recover_unknown_family:
  "texts w (getCurrentPath vs) = Some name \<and>
   journals w (getManifestFilePath vs name) = Some (pre @ Good p # post) \<and>
   unmarshal d p = Some el \<and> familyID el \<noteq> StoreFamilyID \<and>
   familyIDs vs (familyID el) = None \<longrightarrow>
     (\<exists>vs' err. Recover d ids vs w = (vs', w, Some err) \<and>
        familyIDs vs' = familyIDs vs \<and>
        dom (familyVersions vs') = dom (familyVersions vs) \<and>
        manifest vs' = manifest vs \<and>
        (snd (recover_loop d pre vs) = None \<longrightarrow> err = ErrUnknownFamilyID (familyID el)))"
proof
  assume a: "texts w (getCurrentPath vs) = Some name \<and>
   journals w (getManifestFilePath vs name) = Some (pre @ Good p # post) \<and>
   unmarshal d p = Some el \<and> familyID el \<noteq> StoreFamilyID \<and>
   familyIDs vs (familyID el) = None"
  then have u: "unmarshal d p = Some el" "familyID el \<noteq> StoreFamilyID"
    "familyIDs vs (familyID el) = None"
    by simp_all
  from recover_loop_unknown [OF u, of pre post] obtain vs1 err where
    l: "recover_loop d (pre @ Good p # post) vs = (vs1, Some err)"
    and e: "snd (recover_loop d pre vs) = None \<longrightarrow> err = ErrUnknownFamilyID (familyID el)"
    by (elim exE conjE)
  from a have "Recover d ids vs w = (vs1, w, Some err)"
    using Recover_replays [of w vs name "pre @ Good p # post" d ids] l by simp
  with recover_loop_fields [OF l] e
  show "\<exists>vs' err. Recover d ids vs w = (vs', w, Some err) \<and>
        familyIDs vs' = familyIDs vs \<and>
        dom (familyVersions vs') = dom (familyVersions vs) \<and>
        manifest vs' = manifest vs \<and>
        (snd (recover_loop d pre vs) = None \<longrightarrow> err = ErrUnknownFamilyID (familyID el))"
    by simp
qed

theorem Recover_unknown_family_witness:
  "texts (example_world\<lparr>texts := [''db/CURRENT'' \<mapsto> ''MANIFEST-000001''],
       journals := [''db/MANIFEST-000001'' \<mapsto> [Good \<lparr>familyID = 7, logs = []\<rparr>]]\<rparr>)
     (getCurrentPath example_store) = Some ''MANIFEST-000001'' \<and>
   familyIDs example_store 7 = None \<and> 7 \<noteq> StoreFamilyID \<and>
   snd (snd (Recover example_outside [1] example_store
     (example_world\<lparr>texts := [''db/CURRENT'' \<mapsto> ''MANIFEST-000001''],
        journals := [''db/MANIFEST-000001'' \<mapsto> [Good \<lparr>familyID = 7, logs = []\<rparr>]]\<rparr>)))
     = Some (ErrUnknownFamilyID 7)"
proof -
  let ?w = "example_world\<lparr>texts := [''db/CURRENT'' \<mapsto> ''MANIFEST-000001''],
       journals := [''db/MANIFEST-000001'' \<mapsto> [Good \<lparr>familyID = 7, logs = []\<rparr>]]\<rparr>"
  let ?el = "\<lparr>familyID = 7, logs = []\<rparr> :: EditLog"
  have c: "texts ?w (getCurrentPath example_store) = Some ''MANIFEST-000001''"
    by (simp add: path_defs example_defs)
  have j: "journals ?w (getManifestFilePath example_store ''MANIFEST-000001'')
      = Some ([] @ Good ?el # [])"
    by (simp add: path_defs example_defs)
  have u: "unmarshal example_outside ?el = Some ?el" "familyID ?el \<noteq> StoreFamilyID"
    "familyIDs example_store (familyID ?el) = None"
    by (simp_all add: example_defs StoreFamilyID_def)
  from Recover_unknown_family [where w = ?w and vs = example_store and name = "''MANIFEST-000001''"
      and pre = "[]" and p = ?el and post = "[]" and d = example_outside and el = ?el
      and ids = "[1]"] c j u
  have "snd (snd (Recover example_outside [1] example_store ?w)) = Some (ErrUnknownFamilyID 7)"
    by auto
  with c u show ?thesis
    by (simp add: StoreFamilyID_def)
qed

lemma spec_replay_Cons:
  "spec_replay (el # els) vs = spec_replay els (spec_dispatch el vs)"
  by (simp add: spec_replay_def)

lemma recover_loop_replay:
  "map (unmarshal d) ps = map Some els \<Longrightarrow>
   \<forall>el\<in>set els. familyID el \<noteq> StoreFamilyID \<longrightarrow> getFamilyVersion vs (familyID el) \<noteq> None \<Longrightarrow>
   recover_loop d (map Good ps) vs = (spec_replay els vs, None)"
proof (induction ps arbitrary: els vs)
  case Nil
  then show ?case by (simp add: spec_replay_def)
next
  case (Cons p ps)
  from Cons.prems(1) obtain el els' where els: "els = el # els'"
    and u: "unmarshal d p = Some el" and rest: "map (unmarshal d) ps = map Some els'"
    by (cases els) auto
  let ?vs1 = "spec_dispatch el vs"
  have f: "familyIDs ?vs1 = familyIDs vs" "dom (familyVersions ?vs1) = dom (familyVersions vs)"
    by (simp_all add: spec_dispatch_def applyVersionSet_fields in_place_fields)
  have reg: "\<forall>el\<in>set els'. familyID el \<noteq> StoreFamilyID \<longrightarrow>
      getFamilyVersion ?vs1 (familyID el) \<noteq> None"
    using Cons.prems(2) els getFamilyVersion_None_iff [OF f] by simp
  have step: "recover_loop d (map Good (p # ps)) vs = recover_loop d (map Good ps) ?vs1"
  proof (cases "familyID el = StoreFamilyID")
    case True
    with u show ?thesis by (simp add: spec_dispatch_def)
  next
    case False
    with Cons.prems(2) els obtain fv where "getFamilyVersion vs (familyID el) = Some fv"
      by auto
    from applyFamilyVersion_known [OF this, of el] u False show ?thesis
      by (simp add: spec_dispatch_def)
  qed
  from Cons.IH [OF rest reg] step els show ?case
    by (simp add: spec_replay_Cons)
qed

lemma initJournal_memory:
  assumes "initJournal d ids vs w = (vs', w', r)"
  shows "familyVersions vs' = familyVersions vs \<and> familyIDs vs' = familyIDs vs \<and>
         nextFileNumber vs' = nextFileNumber vs \<and>
         manifestFileNumber vs' = manifestFileNumber vs"
proof (cases r)
  case (Some err)
  with assms initJournal_failed(1) [of d ids vs w vs' w' err] show ?thesis by simp
next
  case None
  show ?thesis
  proof (cases "manifest vs")
    case (Some path)
    from initJournal_open [OF this, of d ids w] assms show ?thesis by simp
  next
    case None
    from initJournal_ok(3) [OF None, of d ids w vs' w'] assms \<open>r = None\<close> show ?thesis by simp
  qed
qed

lemma example_first_run:
  "Recover example_outside [1] example_store example_world =
     (example_store\<lparr>manifest := Some ''db/MANIFEST-000001''\<rparr>,
      \<lparr>texts = [''db/CURRENT'' \<mapsto> ''MANIFEST-000001''],
       journals = [''db/MANIFEST-000001'' \<mapsto>
          [Good \<lparr>familyID = 1, logs = []\<rparr>, Good \<lparr>familyID = - 1, logs = [NewNextFileNumber 2]\<rparr>]],
       trace = [EvOpenWriter ''db/MANIFEST-000001'',
          EvWrite ''db/MANIFEST-000001'' \<lparr>familyID = 1, logs = []\<rparr>, EvSync ''db/MANIFEST-000001'',
          EvWrite ''db/MANIFEST-000001'' \<lparr>familyID = - 1, logs = [NewNextFileNumber 2]\<rparr>,
          EvSync ''db/MANIFEST-000001'',
          EvWriteFile ''db/CURRENT.TMP'' ''MANIFEST-000001'',
          EvRename ''db/CURRENT.TMP'' ''db/CURRENT''],
       script = []\<rparr>, None)"
  by (simp add: Recover_def initJournal_def createSnapshot_def createFamilySnapshot_eq
      createStoreSnapshot_eq setCurrent_def example_defs io_defs path_defs StoreFamilyID_def
      numeral_2_eq_2 enumerate_eq_zip upt_rec fun_upd_twist)

lemma example_history_files:
  "texts example_history ''db/CURRENT'' = Some ''MANIFEST-000001'' \<and>
   journals example_history ''db/MANIFEST-000001'' =
     Some (map Good
       [\<lparr>familyID = 1, logs = []\<rparr>,
        \<lparr>familyID = - 1, logs = [NewNextFileNumber 2]\<rparr>,
        \<lparr>familyID = 1, logs = [CreateNewFile 0 (example_file 2), NewNextFileNumber 3]\<rparr>,
        \<lparr>familyID = 1, logs = [CreateNewFile 0 (example_file 3), NewNextFileNumber 4]\<rparr>])"
  unfolding example_history_def example_first_run
  by (simp add: example_flush_def NextFileNumber_eq
      CommitFamilyEditLog_def example_defs io_defs version_defs)

lemma example_replayed:
  "spec_replay
     [\<lparr>familyID = 1, logs = []\<rparr>,
      \<lparr>familyID = - 1, logs = [NewNextFileNumber 2]\<rparr>,
      \<lparr>familyID = 1, logs = [CreateNewFile 0 (example_file 2), NewNextFileNumber 3]\<rparr>,
      \<lparr>familyID = 1, logs = [CreateNewFile 0 (example_file 3), NewNextFileNumber 4]\<rparr>]
     example_store =
   \<lparr>manifestFileNumber = 2, nextFileNumber = 3, storePath = ''db'',
    familyVersions = [''f'' \<mapsto> \<lparr>fvID = 1, fvName = ''f'',
       fvCurrent = \<lparr>levels = [[example_file 2, example_file 3], []]\<rparr>, fvOlder = []\<rparr>],
    familyIDs = [1 \<mapsto> ''f''], versionID = 0, numOfLevels = 2, manifest = None\<rparr>"
  by (simp add: spec_replay_def spec_dispatch_def StoreFamilyID_def applyVersionSet_def
      setNextFileNumberWithoutLock_def in_place_def example_defs version_defs numeral_2_eq_2)

text \<open>
  Claim C2. When the CURRENT file is absent, \<open>Recover\<close> is \<open>initJournal\<close>: with no
  writer open and no error, the snapshot has been appended to the new manifest, CURRENT
  names that manifest, and the version set has changed in its writer only. When CURRENT
  exists and names a manifest whose frames all decode, to edit logs of the store family
  or of registered families, the loop of \<open>recover\<close> returns no error and the state that
  the replay of these edit logs in order gives, as the specification words it; \<open>Recover\<close>
  then runs \<open>initJournal\<close> from that state, and whatever \<open>initJournal\<close> returns, the
  families, their versions and the two counters are those of the replay.
\<close>

theorem Recover_replay:
  "(\<not> Exist (getCurrentPath vs) w \<longrightarrow> Recover d ids vs w = initJournal d ids vs w) \<and>
   (\<not> Exist (getCurrentPath vs) w \<and> manifest vs = None \<and>
    Recover d ids vs w = (vs', w', None) \<longrightarrow>
      (\<exists>editLogs qs. createSnapshot ids vs = Some editLogs \<and>
         map (marshal d) editLogs = map Some qs \<and>
         frames_of w' (getManifestFilePath vs (ManifestFileName d (manifestFileNumber vs))) =
           frames_of w (getManifestFilePath vs (ManifestFileName d (manifestFileNumber vs)))
             @ map Good qs) \<and>
      texts w' (getCurrentPath vs) = Some (ManifestFileName d (manifestFileNumber vs)) \<and>
      vs' = vs\<lparr>manifest :=
              Some (getManifestFilePath vs (ManifestFileName d (manifestFileNumber vs)))\<rparr>) \<and>
   (texts w (getCurrentPath vs) = Some name \<and>
    journals w (getManifestFilePath vs name) = Some (map Good ps) \<and>
    map (unmarshal d) ps = map Some els \<and>
    (\<forall>el\<in>set els. familyID el \<noteq> StoreFamilyID \<longrightarrow>
       getFamilyVersion vs (familyID el) \<noteq> None) \<longrightarrow>
      recover d vs w = (spec_replay els vs, None) \<and>
      Recover d ids vs w = initJournal d ids (spec_replay els vs) w \<and>
      (Recover d ids vs w = (vs', w', r) \<longrightarrow>
         familyVersions vs' = familyVersions (spec_replay els vs) \<and>
         familyIDs vs' = familyIDs (spec_replay els vs) \<and>
         nextFileNumber vs' = nextFileNumber (spec_replay els vs) \<and>
         manifestFileNumber vs' = manifestFileNumber (spec_replay els vs)))"
proof (intro conjI impI)
  assume "\<not> Exist (getCurrentPath vs) w"
  then show "Recover d ids vs w = initJournal d ids vs w"
    by (simp add: Recover_def getCurrentPath_def)
next
  assume a: "\<not> Exist (getCurrentPath vs) w \<and> manifest vs = None \<and>
    Recover d ids vs w = (vs', w', None)"
  then have m: "manifest vs = None" and i: "initJournal d ids vs w = (vs', w', None)"
    by (auto simp: Recover_def getCurrentPath_def)
  from initJournal_ok [OF m i]
  show "\<exists>editLogs qs. createSnapshot ids vs = Some editLogs \<and>
         map (marshal d) editLogs = map Some qs \<and>
         frames_of w' (getManifestFilePath vs (ManifestFileName d (manifestFileNumber vs))) =
           frames_of w (getManifestFilePath vs (ManifestFileName d (manifestFileNumber vs)))
             @ map Good qs"
    and "texts w' (getCurrentPath vs) = Some (ManifestFileName d (manifestFileNumber vs))"
    and "vs' = vs\<lparr>manifest :=
              Some (getManifestFilePath vs (ManifestFileName d (manifestFileNumber vs)))\<rparr>"
    by blast+
next
  assume a: "texts w (getCurrentPath vs) = Some name \<and>
    journals w (getManifestFilePath vs name) = Some (map Good ps) \<and>
    map (unmarshal d) ps = map Some els \<and>
    (\<forall>el\<in>set els. familyID el \<noteq> StoreFamilyID \<longrightarrow>
       getFamilyVersion vs (familyID el) \<noteq> None)"
  then have c: "texts w (getCurrentPath vs) = Some name"
    and j: "journals w (getManifestFilePath vs name) = Some (map Good ps)"
    and u: "map (unmarshal d) ps = map Some els"
    and reg: "\<forall>el\<in>set els. familyID el \<noteq> StoreFamilyID \<longrightarrow>
       getFamilyVersion vs (familyID el) \<noteq> None"
    by simp_all
  note l = recover_loop_replay [OF u reg]
  from c j l show "recover d vs w = (spec_replay els vs, None)"
    by (simp add: recover_def readManifestFileName_def ReadFile_def NewBufioReader_def)
  from Recover_replays [OF c j, of d ids] l
  show R: "Recover d ids vs w = initJournal d ids (spec_replay els vs) w"
    by simp
  {
    assume "Recover d ids vs w = (vs', w', r)"
    with R have "initJournal d ids (spec_replay els vs) w = (vs', w', r)" by simp
    from initJournal_memory [OF this]
    show "familyVersions vs' = familyVersions (spec_replay els vs)"
      and "familyIDs vs' = familyIDs (spec_replay els vs)"
      and "nextFileNumber vs' = nextFileNumber (spec_replay els vs)"
      and "manifestFileNumber vs' = manifestFileNumber (spec_replay els vs)"
      by simp_all
  }
qed

theorem Recover_replay_witness:
  "texts example_history (getCurrentPath example_store) = Some ''MANIFEST-000001'' \<and>
   (case Recover example_outside [1] example_store example_history of
      (vs', w', r) \<Rightarrow>
        familyVersions vs' ''f'' =
          Some \<lparr>fvID = 1, fvName = ''f'',
                fvCurrent = \<lparr>levels = [[example_file 2, example_file 3], []]\<rparr>, fvOlder = []\<rparr> \<and>
        nextFileNumber vs' = 3 \<and> manifestFileNumber vs' = 2)"
proof -
  let ?els = "[\<lparr>familyID = 1, logs = []\<rparr>,
        \<lparr>familyID = - 1, logs = [NewNextFileNumber 2]\<rparr>,
        \<lparr>familyID = 1, logs = [CreateNewFile 0 (example_file 2), NewNextFileNumber 3]\<rparr>,
        \<lparr>familyID = 1, logs = [CreateNewFile 0 (example_file 3), NewNextFileNumber 4]\<rparr>]"
  obtain vs' w' r where R: "Recover example_outside [1] example_store example_history = (vs', w', r)"
    by (cases "Recover example_outside [1] example_store example_history")
  have c: "texts example_history (getCurrentPath example_store) = Some ''MANIFEST-000001''"
    using example_history_files by (simp add: path_defs example_defs)
  have j: "journals example_history (getManifestFilePath example_store ''MANIFEST-000001'')
      = Some (map Good ?els)"
    using example_history_files by (simp add: path_defs example_defs)
  have u: "map (unmarshal example_outside) ?els = map Some ?els"
    by (simp add: example_outside_def)
  have reg: "\<forall>el\<in>set ?els. familyID el \<noteq> StoreFamilyID \<longrightarrow>
       getFamilyVersion example_store (familyID el) \<noteq> None"
    by (simp add: getFamilyVersion_def example_defs StoreFamilyID_def)
  from Recover_replay [where vs = example_store and w = example_history and d = example_outside
      and ids = "[1]" and name = "''MANIFEST-000001''" and ps = ?els and els = ?els
      and vs' = vs' and w' = w' and r = r] c j u reg R
  have "familyVersions vs' = familyVersions (spec_replay ?els example_store) \<and>
        nextFileNumber vs' = nextFileNumber (spec_replay ?els example_store) \<and>
        manifestFileNumber vs' = manifestFileNumber (spec_replay ?els example_store)"
    by blast
  with c R show ?thesis
    by (simp add: example_replayed)
qed

lemma foldl_applyLogVersionSet_snoc:
  "foldl (\<lambda>vs l. applyLogVersionSet l vs) vs (ls @ [NewNextFileNumber n]) =
     (foldl (\<lambda>vs l. applyLogVersionSet l vs) vs ls)
       \<lparr>manifestFileNumber := n, nextFileNumber := n + 1\<rparr>"
  by (simp add: setNextFileNumberWithoutLock_def)










section \<open>The tag limit of a metric\<close>

lemma writeTSStore_count:
  "tagCount (writeTSStore out point ms) = tagCount ms"
  "maxTagsLimit (writeTSStore out point ms) = maxTagsLimit ms"
  "immutable (writeTSStore out point ms) = immutable ms"
  by (simp_all add: writeTSStore_def tagCount_def)

lemma getOrCreateTSStore_Inr:
  assumes "getOrCreateTSStore out tagSet ms = Inr (ts, ms1)"
  shows "maxTagsLimit ms1 = maxTagsLimit ms"
    and "tagCount ms \<le> maxTagsLimit ms \<Longrightarrow> tagCount ms1 \<le> maxTagsLimit ms1"
  using assms
  by (auto simp: getOrCreateTSStore_def tagCount_def split: option.splits if_splits)

lemma getOrCreateTSStore_Inl:
  "getOrCreateTSStore out tagSet ms = Inl err \<Longrightarrow> err = ErrTooManyTags"
  by (auto simp: getOrCreateTSStore_def split: option.splits if_splits)

lemma getOrCreateMStore_cases:
  assumes "getOrCreateMStore out metric db = (ms, db1)"
  shows "mStores db1 (Fnv32a out metric) = Some ms"
    and "\<forall>h. h \<noteq> Fnv32a out metric \<longrightarrow> mStores db1 h = mStores db h"
    and "maxTagsPerMetric db1 = maxTagsPerMetric db"
    and "mStores db (Fnv32a out metric) = Some ms \<and> db1 = db \<or>
         mStores db (Fnv32a out metric) = None \<and> ms = newMetricStore (maxTagsPerMetric db)"
  using assms
  by (auto simp: getOrCreateMStore_def split: option.splits)

lemma within_limits_update:
  "within_limits db \<Longrightarrow> tagCount ms \<le> maxTagsLimit ms \<Longrightarrow>
   within_limits (db\<lparr>mStores := (mStores db)(h \<mapsto> ms)\<rparr>)"
  by (simp add: within_limits_def)

lemma getOrCreateMStore_within:
  assumes "getOrCreateMStore out metric db = (ms, db1)" "within_limits db"
  shows "within_limits db1" and "tagCount ms \<le> maxTagsLimit ms"
proof -
  from getOrCreateMStore_cases(4) [OF assms(1)] assms(2)
  show c: "tagCount ms \<le> maxTagsLimit ms"
    by (auto simp: within_limits_def newMetricStore_def tagCount_def)
  from assms show "within_limits db1"
    by (auto simp: getOrCreateMStore_def within_limits_def newMetricStore_def tagCount_def
        split: option.splits if_splits)
qed

lemma Write_within:
  assumes "within_limits db"
  shows "within_limits (fst (Write out p db))"
proof (cases p)
  case None
  with assms show ?thesis by (simp add: Write_def)
next
  case (Some point)
  obtain ms db1 where g: "getOrCreateMStore out (pointName point) db = (ms, db1)"
    by (cases "getOrCreateMStore out (pointName point) db")
  note w = getOrCreateMStore_within [OF g assms]
  show ?thesis
  proof (cases "getOrCreateTSStore out (pointTags point) ms")
    case (Inl err)
    with Some g w assms show ?thesis by (simp add: Write_def)
  next
    case (Inr r)
    obtain ts ms1 where r: "r = (ts, ms1)" by (cases r)
    from getOrCreateTSStore_Inr [OF Inr [unfolded r]] w(2)
    have "tagCount (writeTSStore out point ms1) \<le> maxTagsLimit (writeTSStore out point ms1)"
      by (simp add: writeTSStore_count)
    from within_limits_update [OF w(1) this] Some g Inr r w assms show ?thesis
      by (simp add: Write_def)
  qed
qed

lemma freeze_count:
  "tagCount (freeze ms) = tagCount ms" "maxTagsLimit (freeze ms) = maxTagsLimit ms"
  by (simp_all add: freeze_def tagCount_def)

lemma freezeMetric_within:
  assumes "within_limits db"
  shows "within_limits (freezeMetric out metric db)"
proof (cases "mStores db (Fnv32a out metric)")
  case None
  with assms show ?thesis by (simp add: freezeMetric_def)
next
  case (Some ms)
  with assms have "tagCount (freeze ms) \<le> maxTagsLimit (freeze ms)"
    by (simp add: freeze_count within_limits_def)
  from within_limits_update [OF assms this] Some show ?thesis
    by (simp add: freezeMetric_def)
qed

lemma run_within:
  "within_limits db \<Longrightarrow> within_limits (run out calls db)"
proof (induction calls arbitrary: db)
  case Nil
  then show ?case by simp
next
  case (Cons c calls)
  then show ?case
    by (cases c) (simp_all add: Write_within freezeMetric_within)
qed

lemma Write_limit_kept:
  assumes "mStores db h = Some ms"
  shows "\<exists>ms'. mStores (fst (Write out p db)) h = Some ms' \<and> maxTagsLimit ms' = maxTagsLimit ms"
proof (cases p)
  case None
  with assms show ?thesis by (simp add: Write_def)
next
  case (Some point)
  obtain ms0 db1 where g: "getOrCreateMStore out (pointName point) db = (ms0, db1)"
    by (cases "getOrCreateMStore out (pointName point) db")
  note c = getOrCreateMStore_cases [OF g]
  from c assms have k: "mStores db1 h = Some ms"
    by (cases "h = Fnv32a out (pointName point)") auto
  show ?thesis
  proof (cases "getOrCreateTSStore out (pointTags point) ms0")
    case (Inl err)
    with Some g k assms show ?thesis by (simp add: Write_def)
  next
    case (Inr r)
    obtain ts ms1 where r: "r = (ts, ms1)" by (cases r)
    from getOrCreateTSStore_Inr(1) [OF Inr [unfolded r]]
    have l: "maxTagsLimit (writeTSStore out point ms1) = maxTagsLimit ms0"
      by (simp add: writeTSStore_count)
    from c(1) k have "h = Fnv32a out (pointName point) \<Longrightarrow> ms0 = ms" by simp
    with Some g Inr r k l assms show ?thesis
      by (auto simp: Write_def)
  qed
qed

lemma freezeMetric_limit_kept:
  "mStores db h = Some ms \<Longrightarrow>
   \<exists>ms'. mStores (freezeMetric out metric db) h = Some ms' \<and> maxTagsLimit ms' = maxTagsLimit ms"
  by (auto simp: freezeMetric_def freeze_def split: option.splits)

lemma run_limit_kept:
  "mStores db h = Some ms \<Longrightarrow>
   \<exists>ms'. mStores (run out calls db) h = Some ms' \<and> maxTagsLimit ms' = maxTagsLimit ms"
proof (induction calls arbitrary: db ms)
  case Nil
  then show ?case by simp
next
  case (Cons c calls)
  show ?case
  proof (cases c)
    case (CallWrite p)
    from Write_limit_kept [OF Cons.prems, of out p] obtain ms1 where
      "mStores (fst (Write out p db)) h = Some ms1" "maxTagsLimit ms1 = maxTagsLimit ms" by blast
    with Cons.IH [of "fst (Write out p db)" ms1] CallWrite show ?thesis by simp
  next
    case (CallFreeze metric)
    from freezeMetric_limit_kept [OF Cons.prems, of out metric] obtain ms1 where
      "mStores (freezeMetric out metric db) h = Some ms1" "maxTagsLimit ms1 = maxTagsLimit ms"
      by blast
    with Cons.IH [of "freezeMetric out metric db" ms1] CallFreeze show ?thesis by simp
  qed
qed

lemma Write_rejected:
  assumes "Write out p db = (db', Some ErrTooManyTags)"
  shows "tagMaps db' h = tagMaps db h" and "maxTagsPerMetric db' = maxTagsPerMetric db"
proof -
  from assms obtain point where p: "p = Some point" and f: "pointFields point \<noteq> []"
    by (cases p) (auto simp: Write_def split: if_splits)
  obtain ms db1 where g: "getOrCreateMStore out (pointName point) db = (ms, db1)"
    by (cases "getOrCreateMStore out (pointName point) db")
  from assms p f g have d: "db' = db1"
    by (auto simp: Write_def split: if_splits sum.splits prod.splits)
  note c = getOrCreateMStore_cases [OF g]
  from c(4) show "tagMaps db' h = tagMaps db h"
  proof
    assume "mStores db (Fnv32a out (pointName point)) = Some ms \<and> db1 = db"
    with d show ?thesis by simp
  next
    assume n: "mStores db (Fnv32a out (pointName point)) = None \<and>
      ms = newMetricStore (maxTagsPerMetric db)"
    show ?thesis
    proof (cases "h = Fnv32a out (pointName point)")
      case True
      with n c(1) d show ?thesis by (simp add: tagMaps_def newMetricStore_def)
    next
      case False
      with c(2) d show ?thesis by (simp add: tagMaps_def)
    qed
  qed
  from c(3) d show "maxTagsPerMetric db' = maxTagsPerMetric db" by simp
qed

lemma Write_breach:
  assumes "pointFields point \<noteq> []"
    "getOrCreateMStore out (pointName point) db = (ms, db1)"
    "map_of (mutable ms) (pointTags point) = None" "maxTagsLimit ms \<le> tagCount ms"
  shows "Write out (Some point) db = (db1, Some ErrTooManyTags)"
  using assms by (simp add: Write_def getOrCreateTSStore_def)

text \<open>
  Claim C8. After any sequence of writes (and of freezes in between), from a database in
  which every metric store is within its limit, and so from the empty database, every
  metric store is within its limit: its tag-sets, summed over the mutable and the frozen
  maps, are at most its tag limit, and the limit of a store is the one it had. A write
  that returns the too-many-tags error leaves the tag-sets and time-series stores of
  every metric as they were. A write of a point with fields, for a tag-set that the
  mutable map of its metric does not hold, to a metric whose tag count has reached the
  limit, returns that error.
\<close>

theorem Write_tag_limit:
  "((\<forall>h ms. mStores db h = Some ms \<longrightarrow> tagCount ms \<le> maxTagsLimit ms) \<longrightarrow>
      (\<forall>h ms. mStores (run (out :: ('f, 'ts) memdb_outside) calls db) h = Some ms \<longrightarrow>
         tagCount ms \<le> maxTagsLimit ms)) \<and>
   (\<forall>h ms. mStores (run out calls (newMemoryDatabase limit)) h = Some ms \<longrightarrow>
      tagCount ms \<le> maxTagsLimit ms) \<and>
   (mStores db h = Some ms \<longrightarrow>
      (\<exists>ms'. mStores (run out calls db) h = Some ms' \<and> maxTagsLimit ms' = maxTagsLimit ms)) \<and>
   (Write out p db = (db', Some ErrTooManyTags) \<longrightarrow>
      tagMaps db' h = tagMaps db h \<and> maxTagsPerMetric db' = maxTagsPerMetric db) \<and>
   (pointFields point \<noteq> [] \<and> getOrCreateMStore out (pointName point) db = (ms, db1) \<and>
    map_of (mutable ms) (pointTags point) = None \<and> maxTagsLimit ms \<le> tagCount ms \<longrightarrow>
      Write out (Some point) db = (db1, Some ErrTooManyTags))"
proof (intro conjI impI)
  assume "\<forall>h ms. mStores db h = Some ms \<longrightarrow> tagCount ms \<le> maxTagsLimit ms"
  then have "within_limits db" by (simp add: within_limits_def)
  from run_within [OF this, of out calls]
  show "\<forall>h ms. mStores (run out calls db) h = Some ms \<longrightarrow> tagCount ms \<le> maxTagsLimit ms"
    by (simp add: within_limits_def)
next
  have "within_limits (newMemoryDatabase limit :: 'ts memoryDatabase)"
    by (simp add: within_limits_def newMemoryDatabase_def)
  from run_within [OF this, of out calls]
  show "\<forall>h ms. mStores (run out calls (newMemoryDatabase limit)) h = Some ms \<longrightarrow>
      tagCount ms \<le> maxTagsLimit ms"
    by (simp add: within_limits_def)
next
  assume "mStores db h = Some ms"
  then show "\<exists>ms'. mStores (run out calls db) h = Some ms' \<and> maxTagsLimit ms' = maxTagsLimit ms"
    by (rule run_limit_kept)
next
  assume a: "Write out p db = (db', Some ErrTooManyTags)"
  from Write_rejected [OF a]
  show "tagMaps db' h = tagMaps db h" and "maxTagsPerMetric db' = maxTagsPerMetric db"
    by simp_all
next
  assume "pointFields point \<noteq> [] \<and> getOrCreateMStore out (pointName point) db = (ms, db1) \<and>
    map_of (mutable ms) (pointTags point) = None \<and> maxTagsLimit ms \<le> tagCount ms"
  then show "Write out (Some point) db = (db1, Some ErrTooManyTags)"
    using Write_breach by blast
qed

lemma example_first_write:
  "Write example_memdb (Some (example_point ''a'')) (newMemoryDatabase 1) =
     (\<lparr>mStores = [3 \<mapsto> \<lparr>mutable = [(''a'', 1)], immutable = [], maxTagsLimit = 1\<rparr>],
       maxTagsPerMetric = 1\<rparr>, None)"
  by (simp add: Write_def getOrCreateMStore_def getOrCreateTSStore_def writeTSStore_def
      newMemoryDatabase_def newMetricStore_def example_memdb_def example_point_def
      tagCount_def isFull_def)

theorem Write_tag_limit_witness:
  "pointFields (example_point ''b'') \<noteq> [] \<and>
   Write example_memdb (Some (example_point ''b''))
      (fst (Write example_memdb (Some (example_point ''a'')) (newMemoryDatabase 1)))
     = (fst (Write example_memdb (Some (example_point ''a'')) (newMemoryDatabase 1)),
        Some ErrTooManyTags) \<and>
   (\<exists>ms. mStores (run example_memdb
                [CallWrite (Some (example_point ''a'')), CallWrite (Some (example_point ''b''))]
                (newMemoryDatabase 1)) 3 = Some ms \<and>
         tagCount ms \<le> maxTagsLimit ms \<and> maxTagsLimit ms = 1)"
proof -
  let ?db = "fst (Write example_memdb (Some (example_point ''a'')) (newMemoryDatabase 1))"
  let ?ms = "\<lparr>mutable = [(''a'', 1::nat)], immutable = [], maxTagsLimit = 1\<rparr>"
  have f: "pointFields (example_point ''b'') \<noteq> []"
    by (simp add: example_point_def)
  have g: "getOrCreateMStore example_memdb (pointName (example_point ''b'')) ?db = (?ms, ?db)"
    unfolding example_first_write
    by (simp add: getOrCreateMStore_def example_memdb_def example_point_def)
  have n: "map_of (mutable ?ms) (pointTags (example_point ''b'')) = None"
    by (simp add: example_point_def)
  have l: "maxTagsLimit ?ms \<le> tagCount ?ms"
    by (simp add: tagCount_def)
  note T = Write_tag_limit [where out = example_memdb and point = "example_point ''b''"
      and db = ?db and ms = ?ms and ?db1.0 = ?db and limit = 1
      and calls = "[CallWrite (Some (example_point ''a'')), CallWrite (Some (example_point ''b''))]"]
  from T f g n l have "Write example_memdb (Some (example_point ''b'')) ?db = (?db, Some ErrTooManyTags)"
    by blast
  moreover from T have "\<forall>h ms. mStores (run example_memdb
                [CallWrite (Some (example_point ''a'')), CallWrite (Some (example_point ''b''))]
                (newMemoryDatabase 1)) h = Some ms \<longrightarrow> tagCount ms \<le> maxTagsLimit ms"
    by blast
  moreover have "mStores ?db 3 = Some ?ms"
    unfolding example_first_write by simp
  from Write_tag_limit [where out = example_memdb and db = ?db and h = 3 and ms = ?ms
      and calls = "[CallWrite (Some (example_point ''b''))]"] this
  have "\<exists>ms. mStores (run example_memdb
                [CallWrite (Some (example_point ''a'')), CallWrite (Some (example_point ''b''))]
                (newMemoryDatabase 1)) 3 = Some ms \<and> maxTagsLimit ms = 1"
    by simp
  ultimately show ?thesis
    using f by blast
qed

end
